theory Spec2Isabelle
  imports Main "HOL-Library.Word" "HOL-Library.Signed_Division" "HOL-Library.AList"
begin

unbundle bit_operations_syntax

section \<open>Consensus core of SHURIUM: data model\<close>

text \<open>
  \<^verbatim>\<open>Amount\<close> is a signed 64-bit integer, \<^verbatim>\<open>int\<close> a signed 32-bit integer. Both are
  words; \<open>sint\<close> reads them. \<^verbatim>\<open>Hash256\<close> is a 32-byte array in little-endian order
  (byte 0 least significant), here a list of bytes of length 32.
\<close>

type_synonym byte = "8 word"
type_synonym Amount = "64 word"
type_synonym Hash256 = "byte list"

text \<open>
  The fields of \<^verbatim>\<open>consensus::Params\<close> that \<^verbatim>\<open>pouw.cpp\<close> reads. The structure
  is declared in \<^verbatim>\<open>params.h\<close>; its method \<^verbatim>\<open>DifficultyAdjustmentInterval()\<close> is
  taken as one more field.
\<close>

record Params =
  nInitialBlockReward :: Amount
  nSubsidyHalvingInterval :: "32 word"
  powLimit :: Hash256
  fPowNoRetargeting :: bool
  fAllowMinDifficultyBlocks :: bool
  fPoUWOptional :: bool
  nPowTargetSpacing :: "64 word"
  nPowTargetTimespan :: "64 word"
  DifficultyAdjustmentInterval :: "64 word"

section \<open>Block subsidy\<close>

text \<open>
  \<^verbatim>\<open>GetBlockSubsidy(int nHeight, const Params&)\<close>. The division is C++'s truncating
  one. Dividing by zero, dividing \<^verbatim>\<open>INT_MIN\<close> by \<open>-1\<close> and shifting by a negative count
  are undefined in C++: the model returns \<open>None\<close> there.
\<close>

definition GetBlockSubsidy :: "32 word \<Rightarrow> Params \<Rightarrow> Amount option" where
  "GetBlockSubsidy nHeight params =
     (if nHeight = 0 then Some (nInitialBlockReward params)
      else if sint (nSubsidyHalvingInterval params) = 0 then None
      else if sint nHeight = - (2 ^ 31) \<and> sint (nSubsidyHalvingInterval params) = - 1 then None
      else
        let halvings = sint nHeight sdiv sint (nSubsidyHalvingInterval params) in
        if halvings \<ge> 64 then Some 0
        else if halvings < 0 then None
        else Some (signed_drop_bit (nat halvings) (nInitialBlockReward params)))"

text \<open>The network of scenario S1: initial reward 50 * 10^8, halving every 210 000 blocks.\<close>

definition s1_params :: Params where
  "s1_params = \<lparr> nInitialBlockReward = 5000000000,
                 nSubsidyHalvingInterval = 210000,
                 powLimit = replicate 26 0 @ [0xFF, 0xFF, 0, 0, 0, 0],
                 fPowNoRetargeting = False,
                 fAllowMinDifficultyBlocks = False,
                 fPoUWOptional = False,
                 nPowTargetSpacing = 600,
                 nPowTargetTimespan = 1209600,
                 DifficultyAdjustmentInterval = 2016 \<rparr>"

section \<open>Compact targets\<close>

text \<open>
  \<^verbatim>\<open>CompactToBig(uint32_t nCompact)\<close>: the size is the top byte, the word the low 23
  bits. A compact value with the sign bit set, or with a size above 34, expands to the null
  target. For a size of at most 3 the word is shifted down and written to bytes 0..2;
  otherwise its three bytes go to positions \<open>size - 3\<close> .. \<open>size - 1\<close>, and only when
  \<open>size - 3 \<le> 29\<close>.
\<close>

definition CompactToBig :: "32 word \<Rightarrow> Hash256" where
  "CompactToBig nCompact =
     (let target = replicate 32 (0 :: byte);
          size = unat (drop_bit 24 nCompact AND 0xFF);
          word = nCompact AND 0x007FFFFF
      in
        if nCompact AND 0x00800000 \<noteq> 0 then target
        else if size > 34 then target
        else if size \<le> 3 then
          (let word = drop_bit (8 * (3 - size)) word in
             target[0 := ucast (word AND 0xFF),
                    1 := ucast (drop_bit 8 word AND 0xFF),
                    2 := ucast (drop_bit 16 word AND 0xFF)])
        else
          (let pos = size - 3 in
             if pos \<le> 29 then
               (let t1 = target[pos := ucast (word AND 0xFF)];
                    t2 = (if pos + 1 < 32 then t1[pos + 1 := ucast (drop_bit 8 word AND 0xFF)] else t1);
                    t3 = (if pos + 2 < 32 then t2[pos + 2 := ucast (drop_bit 16 word AND 0xFF)] else t2)
                in t3)
             else target))"

text \<open>
  The scan of \<^verbatim>\<open>BigToCompact\<close> for the most significant non-zero byte:
  \<^verbatim>\<open>for (int i = 31; i >= 0; --i) if (target[i] != 0) { msb_pos = i; break; }\<close>.
  \<open>find_msb n t\<close> scans the indices below \<open>n\<close> downwards; \<open>None\<close> is \<^verbatim>\<open>msb_pos = -1\<close>.
\<close>

fun find_msb :: "nat \<Rightarrow> Hash256 \<Rightarrow> nat option" where
  "find_msb 0 t = None"
| "find_msb (Suc i) t = (if t ! i \<noteq> 0 then Some i else find_msb i t)"

text \<open>
  The packing loop of the short branch:
  \<^verbatim>\<open>for (int i = size - 1; i >= 0; --i) word = (word << 8) | target[i];\<close>
\<close>

fun pack_low :: "nat \<Rightarrow> Hash256 \<Rightarrow> 32 word \<Rightarrow> 32 word" where
  "pack_low 0 t word = word"
| "pack_low (Suc i) t word = pack_low i t (push_bit 8 word OR ucast (t ! i))"

definition BigToCompact :: "Hash256 \<Rightarrow> 32 word" where
  "BigToCompact target =
     (case find_msb 32 target of
        None \<Rightarrow> 0
      | Some msb_pos \<Rightarrow>
          (let size = msb_pos + 1 in
             if size \<le> 3 then
               (let word = pack_low size target 0;
                    word = push_bit (8 * (3 - size)) word
                in push_bit 24 (word_of_nat size) OR word)
             else
               (let word = push_bit 16 (ucast (target ! msb_pos)) OR
                           push_bit 8 (ucast (target ! (msb_pos - 1))) OR
                           ucast (target ! (msb_pos - 2)) :: 32 word
                in
                  if word AND 0x00800000 \<noteq> 0
                  then push_bit 24 (word_of_nat (size + 1)) OR drop_bit 8 word
                  else push_bit 24 (word_of_nat size) OR word)))"

text \<open>
  The comparison of a target with \<^verbatim>\<open>powLimit\<close>, byte by byte from byte 31 down
  (in \<^verbatim>\<open>CheckProofOfWork\<close> and in \<^verbatim>\<open>CalculateNextWorkRequired\<close>): the first
  differing byte decides. \<open>exceeds_limit n t l\<close> runs the loop on the indices below \<open>n\<close>.
\<close>

fun exceeds_limit :: "nat \<Rightarrow> Hash256 \<Rightarrow> Hash256 \<Rightarrow> bool" where
  "exceeds_limit 0 t l = False"
| "exceeds_limit (Suc i) t l =
     (if t ! i > l ! i then True
      else if t ! i < l ! i then False
      else exceeds_limit i t l)"

text \<open>
  Modelled from the spec: \<^verbatim>\<open>Hash256::operator<\<close> is declared outside the sources at
  hand. The specification gives it: a \<^verbatim>\<open>Hash256\<close> is a little-endian integer and
  \<open><\<close> is the unsigned integer comparison in that byte order.
\<close>

fun hash_to_nat :: "Hash256 \<Rightarrow> nat" where
  "hash_to_nat [] = 0"
| "hash_to_nat (b # bs) = unat b + 256 * hash_to_nat bs"

definition Hash256_less :: "Hash256 \<Rightarrow> Hash256 \<Rightarrow> bool" where
  "Hash256_less a b = (hash_to_nat a < hash_to_nat b)"

definition CheckProofOfWork :: "Hash256 \<Rightarrow> 32 word \<Rightarrow> Params \<Rightarrow> bool" where
  "CheckProofOfWork hash nBits params =
     (if nBits = 0 then False
      else
        let target = CompactToBig nBits;
            targetExceedsLimit = exceeds_limit 32 target (powLimit params)
        in if targetExceedsLimit then False
           else Hash256_less hash target)"

section \<open>Difficulty adjustment\<close>

text \<open>
  A \<^verbatim>\<open>BlockIndex\<close> with the members the difficulty engine reads: height, block time
  (\<^verbatim>\<open>GetBlockTime()\<close>, an \<^verbatim>\<open>int64_t\<close>), compact target and the pointer to the
  predecessor (\<open>None\<close> is \<^verbatim>\<open>nullptr\<close>). A \<^verbatim>\<open>BlockHeader\<close> contributes its
  \<^verbatim>\<open>nTime\<close>, an unsigned 32-bit value widened to \<^verbatim>\<open>int64_t\<close>.
\<close>

datatype BlockIndex =
  BlockIndex (nHeight: "32 word") (GetBlockTime: "64 word") (nBits: "32 word")
             (pprev: "BlockIndex option")

record BlockHeader =
  nTime :: "32 word"

text \<open>
  The normalisation loops of \<^verbatim>\<open>CalculateNextWorkRequired\<close> on the 64-bit scaled
  mantissa and the \<^verbatim>\<open>int\<close> exponent.
\<close>

function shrink_mantissa :: "64 word \<Rightarrow> int \<Rightarrow> 64 word \<times> int" where
  "shrink_mantissa m e =
     (if m > 0x007FFFFF then shrink_mantissa (drop_bit 8 m) (e + 1) else (m, e))"
  by pat_completeness auto
termination
proof (relation "measure (\<lambda>(m, e). unat m)")
  show "wf (measure (\<lambda>(m :: 64 word, e :: int). unat m))"
    by simp
next
  fix m :: "64 word" and e :: int
  assume "0x007FFFFF < m"
  hence pos: "0 < unat m"
    by (simp add: word_less_nat_alt)
  have "unat (drop_bit 8 m) = unat m div 2 ^ 8"
    by (simp add: drop_bit_eq_div unat_div)
  also have "\<dots> < unat m"
    using pos by simp
  finally show "((drop_bit 8 m, e + 1), (m, e)) \<in> measure (\<lambda>(m, e). unat m)"
    by simp
qed

function grow_mantissa :: "64 word \<Rightarrow> int \<Rightarrow> 64 word \<times> int" where
  "grow_mantissa m e =
     (if m < 0x008000 \<and> e > 1 then grow_mantissa (push_bit 8 m) (e - 1) else (m, e))"
  by pat_completeness auto
termination
  by (relation "measure (\<lambda>(m, e). nat e)") auto

text \<open>
  \<^verbatim>\<open>CalculateNextWorkRequired\<close>. The signed 64-bit time arithmetic (whose overflow is
  undefined in C++) is done on the integers read by \<open>sint\<close>; the product with the mantissa
  is the wrapping unsigned 64-bit one of the source. A zero target timespan makes the
  source divide by zero: \<open>None\<close>.
\<close>

definition CalculateNextWorkRequired :: "BlockIndex \<Rightarrow> 64 word \<Rightarrow> Params \<Rightarrow> 32 word option" where
  "CalculateNextWorkRequired pindexLast nFirstBlockTime params =
     (if fPowNoRetargeting params then Some (nBits pindexLast)
      else
        let nTargetTimespan = sint (nPowTargetTimespan params);
            a0 = sint (GetBlockTime pindexLast) - sint nFirstBlockTime;
            a1 = (if a0 < nTargetTimespan sdiv 4 then nTargetTimespan sdiv 4 else a0);
            nActualTimespan = (if a1 > nTargetTimespan * 4 then nTargetTimespan * 4 else a1);
            nOldBits = nBits pindexLast;
            nExponent = uint (drop_bit 24 nOldBits AND 0xFF);
            nMantissa = nOldBits AND 0x007FFFFF
        in
          if nPowTargetTimespan params = 0 then None
          else
            let scaled = (ucast nMantissa * word_of_int nActualTimespan :: 64 word)
                           div nPowTargetTimespan params;
                (m1, e1) = shrink_mantissa scaled nExponent;
                (m2, e2) = grow_mantissa m1 e1;
                e3 = (if e2 > 32 then 32 else e2);
                e4 = (if e3 < 1 then 1 else e3);
                nNewBits0 = push_bit 24 (word_of_int e4 :: 32 word) OR (ucast m2 AND 0x007FFFFF);
                nNewBits = (if m2 AND 0x00800000 \<noteq> 0
                            then ucast (push_bit 24 (word_of_int (e4 + 1) :: 64 word)
                                          OR (drop_bit 8 m2 AND 0x007FFFFF))
                            else nNewBits0);
                newTarget = CompactToBig nNewBits
            in if exceeds_limit 32 newTarget (powLimit params)
               then Some (BigToCompact (powLimit params))
               else Some nNewBits)"

text \<open>
  The walk of the min-difficulty rule:
  \<^verbatim>\<open>while (pindex->pprev != nullptr && pindex->nHeight % interval != 0 &&
         pindex->nBits == BigToCompact(params.powLimit)) pindex = pindex->pprev;\<close>
  The remainder is C++'s truncating one; it is evaluated only when there is a predecessor,
  and with a zero interval it is undefined: \<open>None\<close>.
\<close>

fun walk_back :: "BlockIndex \<Rightarrow> int \<Rightarrow> 32 word \<Rightarrow> BlockIndex option" where
  "walk_back (BlockIndex h t b pp) interval minBits =
     (case pp of
        None \<Rightarrow> Some (BlockIndex h t b pp)
      | Some prev \<Rightarrow>
          if interval = 0 then None
          else if sint h smod interval \<noteq> 0 \<and> b = minBits
          then walk_back prev interval minBits
          else Some (BlockIndex h t b pp))"

text \<open>
  \<^verbatim>\<open>for (int i = 0; pindexFirst && i < n; ++i) pindexFirst = pindexFirst->pprev;\<close>
\<close>

fun step_back :: "nat \<Rightarrow> BlockIndex option \<Rightarrow> BlockIndex option" where
  "step_back 0 p = p"
| "step_back (Suc n) None = None"
| "step_back (Suc n) (Some b) = step_back n (pprev b)"

text \<open>
  \<^verbatim>\<open>GetNextWorkRequired(pindexLast, pblock, params)\<close>; both pointers may be null.
\<close>

definition GetNextWorkRequired ::
  "BlockIndex option \<Rightarrow> BlockHeader option \<Rightarrow> Params \<Rightarrow> 32 word option" where
  "GetNextWorkRequired pindexLast pblock params =
     (case pindexLast of
        None \<Rightarrow> Some (BigToCompact (powLimit params))
      | Some pLast \<Rightarrow>
          if fPowNoRetargeting params then Some (nBits pLast)
          else
            let interval = sint (DifficultyAdjustmentInterval params);
                nextHeight = sint (nHeight pLast) + 1
            in
              if fAllowMinDifficultyBlocks params \<and> pblock \<noteq> None then
                (let blockTime = uint (nTime (the pblock));
                     prevTime = sint (GetBlockTime pLast)
                 in if blockTime > prevTime + sint (nPowTargetSpacing params) * 2
                    then Some (BigToCompact (powLimit params))
                    else map_option nBits
                           (walk_back pLast interval (BigToCompact (powLimit params))))
              else if interval = 0 then None
              else if nextHeight smod interval \<noteq> 0 then Some (nBits pLast)
              else
                (case step_back (nat (sint (ucast (DifficultyAdjustmentInterval params) :: 32 word) - 1))
                        (Some pLast) of
                   None \<Rightarrow> Some (nBits pLast)
                 | Some first \<Rightarrow> CalculateNextWorkRequired pLast (GetBlockTime first) params))"

section \<open>PoUW commitment\<close>

text \<open>
  A coinbase transaction as the extractor reads it: the \<^verbatim>\<open>scriptSig\<close> of each input
  and the \<^verbatim>\<open>scriptPubKey\<close> of each output, as byte strings.
\<close>

record TxIn =
  scriptSig :: "byte list"

record TxOut =
  scriptPubKey :: "byte list"

record Transaction =
  vin :: "TxIn list"
  vout :: "TxOut list"

record Block =
  vtx :: "Transaction list"
  hashPrevBlock :: Hash256

text \<open>\<^verbatim>\<open>POUW_COMMITMENT_MAGIC\<close>, the bytes of "SHRW".\<close>

definition POUW_COMMITMENT_MAGIC :: "byte list" where
  "POUW_COMMITMENT_MAGIC = [0x53, 0x48, 0x52, 0x57]"

text \<open>
  The scan of the scriptSig, on the suffix that starts at index \<open>i\<close>: the loop runs while
  \<open>i + 36 \<le> size\<close>, that is while the suffix has 36 bytes, and returns the 32 bytes after
  the first occurrence of the magic.
\<close>

fun scan_scriptSig :: "byte list \<Rightarrow> Hash256 option" where
  "scan_scriptSig [] = None"
| "scan_scriptSig (b # bs) =
     (if length (b # bs) < 36 then None
      else if take 4 (b # bs) = POUW_COMMITMENT_MAGIC then Some (take 32 (drop 4 (b # bs)))
      else scan_scriptSig bs)"

text \<open>
  The scan of one output script, again on the suffix at index \<open>i\<close>: the loop runs while
  \<open>i + 37 \<le> size\<close>. After an \<^verbatim>\<open>OP_RETURN\<close> one byte of at most 75 is skipped as a push
  opcode, and the magic is looked for there. The value of \<^verbatim>\<open>OP_RETURN\<close> comes from the
  script header and is a parameter.
\<close>

fun scan_scriptPubKey :: "byte \<Rightarrow> byte list \<Rightarrow> Hash256 option" where
  "scan_scriptPubKey opReturn [] = None"
| "scan_scriptPubKey opReturn (b # bs) =
     (if length (b # bs) < 37 then None
      else if b = opReturn then
        (let dataStart = (if 1 < length (b # bs) \<and> (b # bs) ! 1 \<le> 75 then 2 else 1 :: nat) in
           if dataStart + 36 \<le> length (b # bs) \<and>
              take 4 (drop dataStart (b # bs)) = POUW_COMMITMENT_MAGIC
           then Some (take 32 (drop (dataStart + 4) (b # bs)))
           else scan_scriptPubKey opReturn bs)
      else scan_scriptPubKey opReturn bs)"

fun scan_outputs :: "byte \<Rightarrow> TxOut list \<Rightarrow> Hash256 option" where
  "scan_outputs opReturn [] = None"
| "scan_outputs opReturn (out # outs) =
     (case scan_scriptPubKey opReturn (scriptPubKey out) of
        Some c \<Rightarrow> Some c
      | None \<Rightarrow> scan_outputs opReturn outs)"

definition ExtractPoUWCommitment :: "byte \<Rightarrow> Transaction \<Rightarrow> Hash256 option" where
  "ExtractPoUWCommitment opReturn coinbase =
     (case vin coinbase of
        [] \<Rightarrow> None
      | txin # _ \<Rightarrow>
          (case scan_scriptSig (scriptSig txin) of
             Some c \<Rightarrow> Some c
           | None \<Rightarrow> scan_outputs opReturn (vout coinbase)))"

text \<open>
  The entropy loop of \<^verbatim>\<open>VerifyUsefulWork\<close>: the number of positions whose byte differs
  from the byte before it.
\<close>

fun count_transitions :: "byte \<Rightarrow> byte list \<Rightarrow> nat" where
  "count_transitions lastByte [] = 0"
| "count_transitions lastByte (b # bs) =
     (if b \<noteq> lastByte then Suc (count_transitions b bs) else count_transitions lastByte bs)"

text \<open>
  The binding word: the XOR of the first four bytes of the commitment with those of the
  previous block hash, byte \<open>i\<close> shifted to bit \<open>8 i\<close>.
\<close>

definition binding_word :: "Hash256 \<Rightarrow> Hash256 \<Rightarrow> 32 word" where
  "binding_word commitment prev =
     push_bit 0 (ucast (commitment ! 0 XOR prev ! 0)) OR
     push_bit 8 (ucast (commitment ! 1 XOR prev ! 1)) OR
     push_bit 16 (ucast (commitment ! 2 XOR prev ! 2)) OR
     push_bit 24 (ucast (commitment ! 3 XOR prev ! 3))"

text \<open>
  \<^verbatim>\<open>VerifyUsefulWork(block, params)\<close>. \<^verbatim>\<open>Transaction::IsCoinBase\<close> is declared
  outside the sources at hand and is a parameter. \<^verbatim>\<open>IsNull()\<close> of a hash is: all bytes
  zero. The SHA-256 of the previous hash that the source computes is never used.
\<close>

definition VerifyUsefulWork ::
  "(Transaction \<Rightarrow> bool) \<Rightarrow> byte \<Rightarrow> Block \<Rightarrow> Params \<Rightarrow> bool" where
  "VerifyUsefulWork IsCoinBase opReturn block params =
     (case vtx block of
        [] \<Rightarrow> False
      | coinbase # _ \<Rightarrow>
          if \<not> IsCoinBase coinbase then False
          else if (\<forall>b \<in> set (hashPrevBlock block). b = 0) then True
          else
            (case ExtractPoUWCommitment opReturn coinbase of
               None \<Rightarrow>
                 if fPoUWOptional params then True
                 else if fPowNoRetargeting params then True
                 else False
             | Some commitment \<Rightarrow>
                 if (\<forall>b \<in> set commitment. b = 0) then False
                 else if count_transitions (commitment ! 0) (tl commitment) < 8 then False
                 else if binding_word commitment (hashPrevBlock block) = 0 \<or>
                         binding_word commitment (hashPrevBlock block) = 0xFFFFFFFF then False
                 else if commitment = hashPrevBlock block then False
                 else True))"

section \<open>Concrete inputs\<close>

text \<open>
  A block without any commitment on a network where PoUW is not optional but retargeting
  is switched off. Its coinbase has one input with an empty scriptSig and no output; every
  transaction is taken to be a coinbase; the previous hash is not null.
\<close>

definition plain_block :: Block where
  "plain_block = \<lparr> vtx = [\<lparr> vin = [\<lparr> scriptSig = [] \<rparr>], vout = [] \<rparr>],
                   hashPrevBlock = replicate 31 0 @ [1] \<rparr>"

definition noretarget_params :: Params where
  "noretarget_params = s1_params \<lparr> fPowNoRetargeting := True \<rparr>"

definition optional_params :: Params where
  "optional_params = s1_params \<lparr> fPoUWOptional := True \<rparr>"

text \<open>
  A test network that allows min-difficulty blocks and retargets every 4 blocks (target
  spacing 600 s), with a chain of five blocks: heights 0 to 3 carry the compact target
  \<open>0x1c00ffff\<close>, the block at height 4 was mined 1300 s after its parent and carries the
  minimum difficulty \<open>0x1d00ffff\<close>. The next header comes 600 s later.
\<close>

definition testnet_params :: Params where
  "testnet_params = s1_params \<lparr> fAllowMinDifficultyBlocks := True,
                                nPowTargetTimespan := 2400,
                                DifficultyAdjustmentInterval := 4 \<rparr>"

definition chain0 :: BlockIndex where
  "chain0 = BlockIndex 0 1000 0x1c00ffff None"

definition chain1 :: BlockIndex where
  "chain1 = BlockIndex 1 1600 0x1c00ffff (Some chain0)"

definition chain2 :: BlockIndex where
  "chain2 = BlockIndex 2 2200 0x1c00ffff (Some chain1)"

definition chain3 :: BlockIndex where
  "chain3 = BlockIndex 3 2800 0x1c00ffff (Some chain2)"

definition chain4 :: BlockIndex where
  "chain4 = BlockIndex 4 4100 0x1d00ffff (Some chain3)"

definition next_header :: BlockHeader where
  "next_header = \<lparr> nTime = 4700 \<rparr>"

text \<open>
  The same network with the min-difficulty block one height later: heights 0 to 4 carry
  \<open>0x1c00ffff\<close> and the block at height 5 the minimum difficulty.
\<close>

definition chain4r :: BlockIndex where
  "chain4r = BlockIndex 4 3400 0x1c00ffff (Some chain3)"

definition chain5 :: BlockIndex where
  "chain5 = BlockIndex 5 4700 0x1d00ffff (Some chain4r)"

definition next_header5 :: BlockHeader where
  "next_header5 = \<lparr> nTime = 5300 \<rparr>"

text \<open>
  The ancestors of a block index, the block itself first: the list that following
  \<^verbatim>\<open>pprev\<close> visits.
\<close>

fun chain :: "BlockIndex \<Rightarrow> BlockIndex list" where
  "chain (BlockIndex h t b None) = [BlockIndex h t b None]"
| "chain (BlockIndex h t b (Some p)) = BlockIndex h t b (Some p) # chain p"

section \<open>UBI distribution: data model\<close>

datatype ClaimStatus =
  Pending | Valid | InvalidProof | DoubleClaim | IdentityNotFound
  | EpochExpired | EpochNotComplete | PoolEmpty

text \<open>
  Modelled from the spec: \<^verbatim>\<open>EpochId\<close>, \<^verbatim>\<open>identity::Nullifier\<close> and
  \<^verbatim>\<open>identity::ZKProof\<close> are declared in headers outside the sources at hand. The
  specification gives an epoch identifier as an unsigned integer that the persistent format
  stores as a \<^verbatim>\<open>u64\<close>; a nullifier as a 32-byte hash plus the epoch it belongs to, equal
  when both fields are equal; a proof as an opaque byte bundle with a proof type tag and a
  vector of public-input field elements. Field elements are a type parameter \<open>'f\<close>.
\<close>

type_synonym EpochId = "64 word"

record Nullifier =
  nullifierHash :: "byte list"
  nullifierEpoch :: "64 word"

datatype ProofType = ProofType_UBIClaim | ProofType_Other

record 'f ZKProof =
  proofType :: ProofType
  publicInputs :: "'f list"
  proofBytes :: "byte list"

text \<open>
  What \<^verbatim>\<open>ubi.cpp\<close> calls on proofs and field elements without defining it:
  \<^verbatim>\<open>ZKProof::IsValid\<close>, \<^verbatim>\<open>ProofVerifier::Verify(proof, circuit)\<close>,
  \<^verbatim>\<open>FieldElement::FromBytes\<close> and the constructor of a field element from a
  \<^verbatim>\<open>uint64_t\<close>. They are parameters.
\<close>

record 'f ZKEnv =
  IsValid :: "'f ZKProof \<Rightarrow> bool"
  Verify :: "'f ZKProof \<Rightarrow> string \<Rightarrow> bool"
  FieldFromBytes :: "Hash256 \<Rightarrow> 'f"
  FieldFromUInt64 :: "64 word \<Rightarrow> 'f"

text \<open>
  The constants and helpers of \<^verbatim>\<open>ubi.h\<close> that the distributor uses, as parameters.
\<close>

record UBIConsts =
  EPOCH_BLOCKS :: "32 word"
  UBI_CLAIM_WINDOW :: "32 word"
  UBI_GRACE_EPOCHS :: "32 word"
  MIN_IDENTITIES_FOR_UBI :: "32 word"
  MAX_UBI_PER_PERSON :: Amount
  HeightToEpoch :: "32 word \<Rightarrow> EpochId"
  EpochEndHeight :: "EpochId \<Rightarrow> 32 word"

text \<open>
  \<^verbatim>\<open>UBIClaim\<close>. The member \<^verbatim>\<open>proof\<close> is called \<open>zkproof\<close> here, and the members
  \<^verbatim>\<open>epoch\<close>, \<^verbatim>\<open>nullifier\<close> of the claim carry the prefix \<open>claim\<close>.
\<close>

record 'f UBIClaim =
  claimEpoch :: EpochId
  claimNullifier :: Nullifier
  recipient :: "byte list"
  zkproof :: "'f ZKProof"
  amount :: Amount
  submitHeight :: "32 word"
  status :: ClaimStatus

text \<open>
  \<^verbatim>\<open>EpochUBIPool\<close>. The set \<^verbatim>\<open>usedNullifiers\<close> is a list without repetition; the
  order in which the container iterates is not modelled beyond that.
\<close>

record EpochUBIPool =
  epoch :: EpochId
  endHeight :: "32 word"
  claimDeadline :: "32 word"
  totalPool :: Amount
  eligibleCount :: "32 word"
  amountPerPerson :: Amount
  amountClaimed :: Amount
  claimCount :: "32 word"
  isFinalized :: bool
  usedNullifiers :: "Nullifier list"

text \<open>
  The distributor: the map \<^verbatim>\<open>pools_\<close> from epoch to pool as an association list
  with one entry per key, and the counters \<^verbatim>\<open>currentEpoch_\<close>,
  \<^verbatim>\<open>totalDistributed_\<close>, \<^verbatim>\<open>totalClaims_\<close>.
\<close>

record UBIDistributor =
  pools :: "(EpochId \<times> EpochUBIPool) list"
  currentEpoch :: EpochId
  totalDistributed :: Amount
  totalClaims :: "64 word"

definition new_distributor :: UBIDistributor where
  "new_distributor = \<lparr> pools = [], currentEpoch = 0, totalDistributed = 0, totalClaims = 0 \<rparr>"

text \<open>
  Modelled from the spec: the default member initialisers of \<^verbatim>\<open>EpochUBIPool\<close> are in
  the header; the specification has every field zero or false after construction.
\<close>

definition default_pool :: EpochUBIPool where
  "default_pool = \<lparr> epoch = 0, endHeight = 0, claimDeadline = 0, totalPool = 0,
                    eligibleCount = 0, amountPerPerson = 0, amountClaimed = 0, claimCount = 0,
                    isFinalized = False, usedNullifiers = [] \<rparr>"

section \<open>EpochUBIPool\<close>

text \<open>
  \<^verbatim>\<open>EpochUBIPool::Finalize\<close>. The quotient \<^verbatim>\<open>totalPool / identityCount\<close> is the
  truncating signed 64-bit division, \<^verbatim>\<open>std::min\<close> compares signed amounts. With a zero
  identity count that passes the threshold the source divides by zero: \<open>None\<close>.
\<close>

definition Finalize :: "UBIConsts \<Rightarrow> EpochUBIPool \<Rightarrow> 32 word \<Rightarrow> EpochUBIPool option" where
  "Finalize c pool identityCount =
     (if identityCount \<ge> MIN_IDENTITIES_FOR_UBI c then
        (if identityCount = 0 then None
         else
           let q = word_of_int (sint (totalPool pool) sdiv uint identityCount) :: Amount;
               capped = (if sint (MAX_UBI_PER_PERSON c) < sint q then MAX_UBI_PER_PERSON c else q)
           in Some (pool \<lparr> eligibleCount := identityCount, amountPerPerson := capped,
                            isFinalized := True \<rparr>))
      else Some (pool \<lparr> eligibleCount := identityCount, amountPerPerson := 0,
                         isFinalized := True \<rparr>))"

definition IsNullifierUsed :: "EpochUBIPool \<Rightarrow> Nullifier \<Rightarrow> bool" where
  "IsNullifierUsed pool n = (n \<in> set (usedNullifiers pool))"

text \<open>\<^verbatim>\<open>std::set::insert\<close>: an element that is present is not added again.\<close>

definition set_insert :: "'a \<Rightarrow> 'a list \<Rightarrow> 'a list" where
  "set_insert x xs = (if x \<in> set xs then xs else xs @ [x])"

definition RecordClaim :: "EpochUBIPool \<Rightarrow> Nullifier \<Rightarrow> Amount \<Rightarrow> EpochUBIPool" where
  "RecordClaim pool n a =
     pool \<lparr> usedNullifiers := set_insert n (usedNullifiers pool),
            amountClaimed := amountClaimed pool + a,
            claimCount := claimCount pool + 1 \<rparr>"

definition AcceptingClaims :: "EpochUBIPool \<Rightarrow> 32 word \<Rightarrow> bool" where
  "AcceptingClaims pool currentHeight =
     (if \<not> isFinalized pool then False
      else sint currentHeight \<le> sint (claimDeadline pool))"

section \<open>UBIDistributor\<close>

definition GetOrCreatePool :: "UBIConsts \<Rightarrow> UBIDistributor \<Rightarrow> EpochId \<Rightarrow> EpochUBIPool \<times> UBIDistributor" where
  "GetOrCreatePool c D e =
     (case map_of (pools D) e of
        None \<Rightarrow>
          (let pool = default_pool \<lparr> epoch := e, endHeight := EpochEndHeight c e \<rparr>
           in (pool, D \<lparr> pools := AList.update e pool (pools D) \<rparr>))
      | Some pool \<Rightarrow> (pool, D))"

text \<open>
  \<^verbatim>\<open>AddBlockReward\<close>: the loop over the earlier epochs only logs. The current epoch is
  set to the epoch of the height, and the amount is added to that epoch's pool.
\<close>

definition AddBlockReward :: "UBIConsts \<Rightarrow> UBIDistributor \<Rightarrow> 32 word \<Rightarrow> Amount \<Rightarrow> UBIDistributor" where
  "AddBlockReward c D height amt =
     (let e = HeightToEpoch c height;
          D1 = D \<lparr> currentEpoch := e \<rparr>;
          (pool, D2) = GetOrCreatePool c D1 e
      in D2 \<lparr> pools := AList.update e (pool \<lparr> totalPool := totalPool pool + amt \<rparr>) (pools D2) \<rparr>)"

definition FinalizeEpoch :: "UBIConsts \<Rightarrow> UBIDistributor \<Rightarrow> EpochId \<Rightarrow> 32 word \<Rightarrow> UBIDistributor option" where
  "FinalizeEpoch c D e identityCount =
     (case map_of (pools D) e of
        None \<Rightarrow> Some D
      | Some pool \<Rightarrow>
          (let p1 = pool \<lparr> endHeight := EpochEndHeight c e \<rparr>;
               p2 = p1 \<lparr> claimDeadline := endHeight p1 + UBI_CLAIM_WINDOW c
                                             + UBI_GRACE_EPOCHS c * EPOCH_BLOCKS c \<rparr>
           in map_option (\<lambda>p3. D \<lparr> pools := AList.update e p3 (pools D) \<rparr>)
                (Finalize c p2 identityCount)))"

text \<open>An early return of \<^verbatim>\<open>ProcessClaim\<close>: the status is written into the claim.\<close>

definition reject :: "ClaimStatus \<Rightarrow> 'f UBIClaim \<Rightarrow> UBIDistributor
                        \<Rightarrow> ClaimStatus \<times> 'f UBIClaim \<times> UBIDistributor" where
  "reject s claim D = (s, claim \<lparr> status := s \<rparr>, D)"

text \<open>
  \<^verbatim>\<open>UBIDistributor::ProcessClaim(claim, identityTreeRoot, currentHeight)\<close> returns
  the status, the claim as it leaves it, and the distributor as it leaves it.
\<close>

definition ProcessClaim ::
  "'f ZKEnv \<Rightarrow> UBIDistributor \<Rightarrow> 'f UBIClaim \<Rightarrow> Hash256 \<Rightarrow> 32 word
     \<Rightarrow> ClaimStatus \<times> 'f UBIClaim \<times> UBIDistributor" where
  "ProcessClaim env D claim0 identityTreeRoot currentHeight =
     (let claim = claim0 \<lparr> submitHeight := currentHeight \<rparr> in
      case map_of (pools D) (claimEpoch claim) of
        None \<Rightarrow> reject EpochNotComplete claim D
      | Some pool \<Rightarrow>
          if \<not> isFinalized pool then reject EpochNotComplete claim D
          else if \<not> AcceptingClaims pool currentHeight then reject EpochExpired claim D
          else if amountPerPerson pool = 0 then reject PoolEmpty claim D
          else if IsNullifierUsed pool (claimNullifier claim) then reject DoubleClaim claim D
          else if \<not> IsValid env (zkproof claim) then reject InvalidProof claim D
          else if proofType (zkproof claim) \<noteq> ProofType_UBIClaim then reject InvalidProof claim D
          else if length (publicInputs (zkproof claim)) < 3 then reject InvalidProof claim D
          else if publicInputs (zkproof claim) ! 0 \<noteq> FieldFromBytes env identityTreeRoot
            then reject InvalidProof claim D
          else if publicInputs (zkproof claim) ! 2 \<noteq> FieldFromUInt64 env (claimEpoch claim)
            then reject InvalidProof claim D
          else if \<not> Verify env (zkproof claim) ''ubi_claim'' then reject InvalidProof claim D
          else
            (let claim1 = claim \<lparr> amount := amountPerPerson pool, status := Valid \<rparr>;
                 pool1 = RecordClaim pool (claimNullifier claim1) (amount claim1)
             in (status claim1, claim1,
                 D \<lparr> pools := AList.update (claimEpoch claim) pool1 (pools D),
                      totalDistributed := totalDistributed D + amount claim1,
                      totalClaims := totalClaims D + 1 \<rparr>)))"

definition VerifyClaim ::
  "'f ZKEnv \<Rightarrow> UBIDistributor \<Rightarrow> 'f UBIClaim \<Rightarrow> Hash256 \<Rightarrow> 32 word \<Rightarrow> bool" where
  "VerifyClaim env D claim identityTreeRoot currentHeight =
     (case map_of (pools D) (claimEpoch claim) of
        None \<Rightarrow> False
      | Some pool \<Rightarrow>
          if \<not> isFinalized pool then False
          else if \<not> AcceptingClaims pool currentHeight then False
          else if IsNullifierUsed pool (claimNullifier claim) then False
          else if \<not> IsValid env (zkproof claim) then False
          else if proofType (zkproof claim) \<noteq> ProofType_UBIClaim then False
          else if length (publicInputs (zkproof claim)) < 3 then False
          else if publicInputs (zkproof claim) ! 0 \<noteq> FieldFromBytes env identityTreeRoot then False
          else if publicInputs (zkproof claim) ! 2 \<noteq> FieldFromUInt64 env (claimEpoch claim)
            then False
          else Verify env (zkproof claim) ''ubi_claim'')"

text \<open>
  \<^verbatim>\<open>PruneOldPools\<close>: the cutoff is computed in the unsigned 64-bit type of the epoch,
  the \<^verbatim>\<open>int\<close> constant being converted.
\<close>

definition PruneOldPools :: "UBIConsts \<Rightarrow> UBIDistributor \<Rightarrow> EpochId \<Rightarrow> UBIDistributor" where
  "PruneOldPools c D cur =
     (let cutoff = (if cur > scast (UBI_GRACE_EPOCHS c + 10)
                    then cur - scast (UBI_GRACE_EPOCHS c) - 10 else 0)
      in D \<lparr> pools := filter (\<lambda>(e, pool). \<not> e < cutoff) (pools D) \<rparr>)"

text \<open>
  The evaluation order of \<^verbatim>\<open>ProcessClaim\<close> in the words of the specification:
  \<^verbatim>\<open>EpochNotComplete\<close> if no pool or not finalized; \<^verbatim>\<open>EpochExpired\<close> if past
  \<^verbatim>\<open>claimDeadline\<close>; \<^verbatim>\<open>PoolEmpty\<close> if \<^verbatim>\<open>amountPerPerson == 0\<close>;
  \<^verbatim>\<open>DoubleClaim\<close> if the nullifier is already in \<^verbatim>\<open>usedNullifiers\<close>;
  \<^verbatim>\<open>InvalidProof\<close> if the proof fails any of its checks; \<^verbatim>\<open>Valid\<close> otherwise.
\<close>

definition spec_proof_ok :: "'f ZKEnv \<Rightarrow> 'f UBIClaim \<Rightarrow> Hash256 \<Rightarrow> bool" where
  "spec_proof_ok env claim root =
     (IsValid env (zkproof claim) \<and>
      proofType (zkproof claim) = ProofType_UBIClaim \<and>
      length (publicInputs (zkproof claim)) \<ge> 3 \<and>
      publicInputs (zkproof claim) ! 0 = FieldFromBytes env root \<and>
      publicInputs (zkproof claim) ! 2 = FieldFromUInt64 env (claimEpoch claim) \<and>
      Verify env (zkproof claim) ''ubi_claim'')"

definition spec_claim_status ::
  "'f ZKEnv \<Rightarrow> UBIDistributor \<Rightarrow> 'f UBIClaim \<Rightarrow> Hash256 \<Rightarrow> 32 word \<Rightarrow> ClaimStatus" where
  "spec_claim_status env D claim root h =
     (case map_of (pools D) (claimEpoch claim) of
        None \<Rightarrow> EpochNotComplete
      | Some pool \<Rightarrow>
          if \<not> isFinalized pool then EpochNotComplete
          else if sint h > sint (claimDeadline pool) then EpochExpired
          else if amountPerPerson pool = 0 then PoolEmpty
          else if claimNullifier claim \<in> set (usedNullifiers pool) then DoubleClaim
          else if \<not> spec_proof_ok env claim root then InvalidProof
          else Valid)"

section \<open>Concrete inputs for the distributor\<close>

text \<open>
  A test network: epochs of 1440 blocks, a claim window of 10 080 blocks, 2 grace epochs,
  at least 10 identities, at most 10^12 units per person. The proof system accepts exactly
  the proofs whose bytes are \<open>[1]\<close>; field elements are natural numbers.
\<close>

definition test_consts :: UBIConsts where
  "test_consts = \<lparr> EPOCH_BLOCKS = 1440, UBI_CLAIM_WINDOW = 10080, UBI_GRACE_EPOCHS = 2,
                   MIN_IDENTITIES_FOR_UBI = 10, MAX_UBI_PER_PERSON = 1000000000000,
                   HeightToEpoch = (\<lambda>h. word_of_int (sint h sdiv 1440)),
                   EpochEndHeight = (\<lambda>e. ucast e * 1440 + 1439) \<rparr>"

definition test_env :: "nat ZKEnv" where
  "test_env = \<lparr> IsValid = (\<lambda>p. proofBytes p \<noteq> []),
                Verify = (\<lambda>p circuit. proofBytes p = [1]),
                FieldFromBytes = hash_to_nat,
                FieldFromUInt64 = unat \<rparr>"

definition root0 :: Hash256 where
  "root0 = replicate 32 0"

definition good_proof :: "nat ZKProof" where
  "good_proof = \<lparr> proofType = ProofType_UBIClaim, publicInputs = [0, 7, 0], proofBytes = [1] \<rparr>"

definition bad_proof :: "nat ZKProof" where
  "bad_proof = \<lparr> proofType = ProofType_UBIClaim, publicInputs = [0, 7, 0], proofBytes = [2] \<rparr>"

definition claim_a :: "nat UBIClaim" where
  "claim_a = \<lparr> claimEpoch = 0,
               claimNullifier = \<lparr> nullifierHash = replicate 32 1, nullifierEpoch = 0 \<rparr>,
               recipient = replicate 20 0, zkproof = good_proof, amount = 0,
               submitHeight = 0, status = Pending \<rparr>"

definition claim_a_bad :: "nat UBIClaim" where
  "claim_a_bad = claim_a \<lparr> zkproof := bad_proof \<rparr>"

text \<open>
  States of the distributor: after a reward of 100 at height 0; after finalising epoch 0
  with 5 identities (below the threshold: nothing per person); after finalising it with 10
  identities (10 per person); after one valid claim on the latter; and after finalising
  epoch 0 once more, now with 20 identities.
\<close>

definition funded :: UBIDistributor where
  "funded = AddBlockReward test_consts new_distributor 0 100"

definition starved :: UBIDistributor where
  "starved = the (FinalizeEpoch test_consts funded 0 5)"

definition finalized10 :: UBIDistributor where
  "finalized10 = the (FinalizeEpoch test_consts funded 0 10)"

definition claimed1 :: UBIDistributor where
  "claimed1 = snd (snd (ProcessClaim test_env finalized10 claim_a root0 0))"

definition refinalized :: UBIDistributor where
  "refinalized = the (FinalizeEpoch test_consts claimed1 0 20)"

section \<open>Persistent form of the distributor\<close>

text \<open>
  The writing loops \<^verbatim>\<open>for (i = 0; i < n; ++i) data.push_back((x >> (i * 8)) & 0xFF)\<close>.
  On the unsigned values (\<^verbatim>\<open>uint64_t\<close>, \<^verbatim>\<open>uint32_t\<close>) the shift is the logical one,
  on the signed ones (\<^verbatim>\<open>int64_t\<close>, \<^verbatim>\<open>int32_t\<close>) the arithmetic one.
\<close>

definition byte_at :: "'a::len word \<Rightarrow> nat \<Rightarrow> byte" where
  "byte_at x i = ucast (drop_bit (i * 8) x AND 0xFF)"

definition sbyte_at :: "'a::len word \<Rightarrow> nat \<Rightarrow> byte" where
  "sbyte_at x i = ucast (signed_drop_bit (i * 8) x AND 0xFF)"

definition put_u64 :: "64 word \<Rightarrow> byte list" where
  "put_u64 x = map (byte_at x) [0..<8]"

definition put_u32 :: "32 word \<Rightarrow> byte list" where
  "put_u32 x = map (byte_at x) [0..<4]"

definition put_i64 :: "64 word \<Rightarrow> byte list" where
  "put_i64 x = map (sbyte_at x) [0..<8]"

definition put_i32 :: "32 word \<Rightarrow> byte list" where
  "put_i32 x = map (sbyte_at x) [0..<4]"

text \<open>
  The reading loops \<^verbatim>\<open>for (i = 0; i < n; ++i) x |= T(data[offset++]) << (i * 8)\<close>:
  \<open>or_bytes i bs x\<close> ORs the bytes \<open>bs\<close> into \<open>x\<close>, the first one shifted to bit \<open>8 i\<close>.
\<close>

fun or_bytes :: "nat \<Rightarrow> byte list \<Rightarrow> 'a::len word \<Rightarrow> 'a word" where
  "or_bytes i [] x = x"
| "or_bytes i (b # bs) x = or_bytes (Suc i) bs (x OR push_bit (i * 8) (ucast b))"

definition get_64 :: "byte list \<Rightarrow> 64 word" where
  "get_64 bs = or_bytes 0 (take 8 bs) 0"

definition get_32 :: "byte list \<Rightarrow> 32 word" where
  "get_32 bs = or_bytes 0 (take 4 bs) 0"

text \<open>
  One pool of \<^verbatim>\<open>UBIDistributor::Serialize\<close>: the key of the map entry, the fields of
  the pool, the number of used nullifiers and the 32 bytes of each nullifier's hash
  (\<^verbatim>\<open>nullifier.data()\<close>).
\<close>

definition serialize_pool :: "EpochId \<times> EpochUBIPool \<Rightarrow> byte list" where
  "serialize_pool ep =
     (case ep of (epochId, pool) \<Rightarrow>
        put_u64 epochId @
        put_i64 (totalPool pool) @
        put_u32 (eligibleCount pool) @
        put_i64 (amountPerPerson pool) @
        put_i64 (amountClaimed pool) @
        put_u32 (claimCount pool) @
        [if isFinalized pool then 0x01 else 0x00] @
        put_i32 (endHeight pool) @
        put_i32 (claimDeadline pool) @
        put_u32 (word_of_nat (length (usedNullifiers pool))) @
        concat (map nullifierHash (usedNullifiers pool)))"

definition Serialize :: "UBIDistributor \<Rightarrow> byte list" where
  "Serialize D =
     [0x01] @
     put_u64 (currentEpoch D) @
     put_u32 (word_of_nat (length (pools D))) @
     concat (map serialize_pool (pools D))"

text \<open>
  \<^verbatim>\<open>UBIDistributor::Deserialize\<close> reads at a running offset; the functions below take
  the bytes from the offset on, so that \<open>offset + k > len\<close> is \<open>length bs < k\<close>.

  The nullifiers of one pool: \<open>n\<close> times 32 bytes, each inserted into the pool's set with
  the epoch of the pool.
\<close>

fun read_nullifiers :: "nat \<Rightarrow> byte list \<Rightarrow> EpochId \<Rightarrow> Nullifier list \<Rightarrow> Nullifier list" where
  "read_nullifiers 0 bs epochId acc = acc"
| "read_nullifiers (Suc n) bs epochId acc =
     read_nullifiers n (drop 32 bs) epochId
       (set_insert \<lparr> nullifierHash = take 32 bs, nullifierEpoch = epochId \<rparr> acc)"

text \<open>
  One pool: fails when fewer than 53 bytes are left, when the nullifier count exceeds
  1 000 000 or when the hashes do not fit in the rest. Returns the key, the pool and the
  bytes after it.
\<close>

definition read_pool :: "byte list \<Rightarrow> (EpochId \<times> EpochUBIPool \<times> byte list) option" where
  "read_pool bs =
     (if length bs < 53 then None
      else
        let epochId = get_64 bs;
            tp = get_64 (drop 8 bs);
            ec = get_32 (drop 16 bs);
            app = get_64 (drop 20 bs);
            ac = get_64 (drop 28 bs);
            cc = get_32 (drop 36 bs);
            fin = (bs ! 40 \<noteq> 0);
            eh = get_32 (drop 41 bs);
            cd = get_32 (drop 45 bs);
            nullifierCount = get_32 (drop 49 bs);
            rest = drop 53 bs
        in
          if nullifierCount > 1000000 then None
          else if length rest < unat nullifierCount * 32 then None
          else
            Some (epochId,
                  default_pool \<lparr> epoch := epochId, endHeight := eh, claimDeadline := cd,
                                 totalPool := tp, eligibleCount := ec, amountPerPerson := app,
                                 amountClaimed := ac, claimCount := cc, isFinalized := fin,
                                 usedNullifiers := read_nullifiers (unat nullifierCount) rest epochId [] \<rparr>,
                  drop (unat nullifierCount * 32) rest))"

text \<open>
  The loop over the pools: \<open>pools_[epochId] = pool\<close> for each one read. A failure leaves
  the pools read so far in the map.
\<close>

fun read_pools :: "nat \<Rightarrow> byte list \<Rightarrow> (EpochId \<times> EpochUBIPool) list
                     \<Rightarrow> bool \<times> (EpochId \<times> EpochUBIPool) list" where
  "read_pools 0 bs ps = (True, ps)"
| "read_pools (Suc n) bs ps =
     (case read_pool bs of
        None \<Rightarrow> (False, ps)
      | Some (epochId, pool, rest) \<Rightarrow> read_pools n rest (AList.update epochId pool ps))"

text \<open>
  \<^verbatim>\<open>Deserialize(data, len)\<close> on a distributor: the result and the distributor as it
  leaves it. The current epoch is overwritten before the pool count is checked, the pools
  are cleared after it; the totals are not part of the format.
\<close>

definition Deserialize :: "UBIDistributor \<Rightarrow> byte list \<Rightarrow> bool \<times> UBIDistributor" where
  "Deserialize D data =
     (if length data < 13 then (False, D)
      else if data ! 0 \<noteq> 0x01 then (False, D)
      else
        let D1 = D \<lparr> currentEpoch := get_64 (drop 1 data) \<rparr>;
            poolCount = get_32 (drop 9 data)
        in
          if poolCount > 10000 then (False, D1)
          else
            (case read_pools (unat poolCount) (drop 13 data) [] of
               (ok, ps) \<Rightarrow> (ok, D1 \<lparr> pools := ps \<rparr>)))"

section \<open>Reachable states of the distributor\<close>

text \<open>
  The states that the public operations produce from a new distributor. A processed
  claim carries a nullifier with a 32-byte hash (the array type of the source).
\<close>

inductive reachable :: "UBIConsts \<Rightarrow> 'f ZKEnv \<Rightarrow> UBIDistributor \<Rightarrow> bool"
  for c :: UBIConsts and env :: "'f ZKEnv" where
  reachable_new: "reachable c env new_distributor"
| reachable_reward:
    "reachable c env D \<Longrightarrow> reachable c env (AddBlockReward c D height amt)"
| reachable_finalize:
    "reachable c env D \<Longrightarrow> FinalizeEpoch c D e identityCount = Some D' \<Longrightarrow> reachable c env D'"
| reachable_claim:
    "reachable c env D \<Longrightarrow> length (nullifierHash (claimNullifier claim)) = 32 \<Longrightarrow>
     reachable c env (snd (snd (ProcessClaim env D claim root h)))"
| reachable_prune:
    "reachable c env D \<Longrightarrow> reachable c env (PruneOldPools c D cur)"
| reachable_load:
    "reachable c env D \<Longrightarrow> reachable c env (snd (Deserialize D data))"

text \<open>
  The states of an orderly run: rewards are not negative and do not overflow the pool
  they are added to, an epoch is finalized only while it is not yet finalized, and no state
  is loaded from bytes.
\<close>

definition pool_total :: "UBIDistributor \<Rightarrow> EpochId \<Rightarrow> Amount" where
  "pool_total D e = (case map_of (pools D) e of None \<Rightarrow> 0 | Some pool \<Rightarrow> totalPool pool)"

definition epoch_finalized :: "UBIDistributor \<Rightarrow> EpochId \<Rightarrow> bool" where
  "epoch_finalized D e = (case map_of (pools D) e of None \<Rightarrow> False | Some pool \<Rightarrow> isFinalized pool)"

inductive orderly :: "UBIConsts \<Rightarrow> 'f ZKEnv \<Rightarrow> UBIDistributor \<Rightarrow> bool"
  for c :: UBIConsts and env :: "'f ZKEnv" where
  orderly_new: "orderly c env new_distributor"
| orderly_reward:
    "orderly c env D \<Longrightarrow> 0 \<le> sint amt \<Longrightarrow>
     sint (pool_total D (HeightToEpoch c height)) + sint amt < 2 ^ 63 \<Longrightarrow>
     orderly c env (AddBlockReward c D height amt)"
| orderly_finalize:
    "orderly c env D \<Longrightarrow> \<not> epoch_finalized D e \<Longrightarrow>
     FinalizeEpoch c D e identityCount = Some D' \<Longrightarrow> orderly c env D'"
| orderly_claim:
    "orderly c env D \<Longrightarrow> length (nullifierHash (claimNullifier claim)) = 32 \<Longrightarrow>
     orderly c env (snd (snd (ProcessClaim env D claim root h)))"
| orderly_prune:
    "orderly c env D \<Longrightarrow> orderly c env (PruneOldPools c D cur)"

text \<open>
  The invariant of a pool in an orderly run: the amount claimed and the claim count are
  the number of recorded nullifiers times the allotment, respectively the number itself
  (in the 64-bit and 32-bit arithmetic of the fields); a pool that is not finalized has no
  recorded nullifier; the total is not negative; and once finalized, the allotment is not
  negative and the allotments of all eligible identities fit into the total.
\<close>

definition pool_inv :: "EpochUBIPool \<Rightarrow> bool" where
  "pool_inv pool =
     (amountClaimed pool = word_of_nat (length (usedNullifiers pool)) * amountPerPerson pool \<and>
      claimCount pool = word_of_nat (length (usedNullifiers pool)) \<and>
      (isFinalized pool \<or> usedNullifiers pool = []) \<and>
      0 \<le> sint (totalPool pool) \<and>
      (if isFinalized pool
       then 0 \<le> sint (amountPerPerson pool) \<and>
            uint (eligibleCount pool) * sint (amountPerPerson pool) \<le> sint (totalPool pool)
       else True))"

definition dist_inv :: "UBIDistributor \<Rightarrow> bool" where
  "dist_inv D = (\<forall>e p. map_of (pools D) e = Some p \<longrightarrow> pool_inv p)"

text \<open>
  More claims than eligible identities: claims number 1 to \<open>k\<close>, each with its own
  nullifier and the same accepted proof, processed one after the other; eleven of them on
  the pool that was finalized with 10 identities.
\<close>

definition claim_k :: "nat \<Rightarrow> nat UBIClaim" where
  "claim_k k = claim_a \<lparr> claimNullifier :=
                 \<lparr> nullifierHash = replicate 32 (word_of_nat k), nullifierEpoch = 0 \<rparr> \<rparr>"

fun claim_many :: "nat \<Rightarrow> UBIDistributor \<Rightarrow> UBIDistributor" where
  "claim_many 0 D = D"
| "claim_many (Suc k) D =
     snd (snd (ProcessClaim test_env (claim_many k D) (claim_k (Suc k)) root0 0))"

definition overclaimed :: UBIDistributor where
  "overclaimed = claim_many 11 finalized10"

text \<open>
  What the containers of the source guarantee, on the lists that model them: the map has
  one entry per epoch, a pool sits under its own epoch, the set of used nullifiers has no
  repetition, and a nullifier hash has 32 bytes.
\<close>

definition pool_wf :: "EpochId \<Rightarrow> EpochUBIPool \<Rightarrow> bool" where
  "pool_wf e pool =
     (epoch pool = e \<and> distinct (usedNullifiers pool) \<and>
      list_all (\<lambda>n. length (nullifierHash n) = 32) (usedNullifiers pool))"

definition dist_wf :: "UBIDistributor \<Rightarrow> bool" where
  "dist_wf D = (distinct (map fst (pools D)) \<and> list_all (\<lambda>(e, pool). pool_wf e pool) (pools D))"

text \<open>
  The sanity caps of \<^verbatim>\<open>Deserialize\<close> (at most 10 000 pools, at most 1 000 000
  nullifiers in a pool), and the condition that every recorded nullifier carries the epoch
  of the pool that holds it.
\<close>

definition within_caps :: "UBIDistributor \<Rightarrow> bool" where
  "within_caps D =
     (length (pools D) \<le> 10000 \<and>
      list_all (\<lambda>(e, pool). length (usedNullifiers pool) \<le> 1000000) (pools D))"

definition nullifiers_in_epoch :: "UBIDistributor \<Rightarrow> bool" where
  "nullifiers_in_epoch D =
     list_all (\<lambda>(e, pool). list_all (\<lambda>n. nullifierEpoch n = e) (usedNullifiers pool)) (pools D)"

text \<open>
  A distributor with one pool for each of the epochs 0 to \<open>n - 1\<close>: a reward of 1 at the
  first height of each epoch.
\<close>

fun add_rewards :: "nat \<Rightarrow> UBIDistributor" where
  "add_rewards 0 = new_distributor"
| "add_rewards (Suc n) = AddBlockReward test_consts (add_rewards n) (word_of_nat (n * 1440)) 1"

text \<open>
  A claim for epoch 0 whose nullifier names epoch 1, processed on the pool finalized with
  10 identities.
\<close>

definition claim_other_epoch :: "nat UBIClaim" where
  "claim_other_epoch = claim_a \<lparr> claimNullifier :=
                         \<lparr> nullifierHash = replicate 32 1, nullifierEpoch = 1 \<rparr> \<rparr>"

definition mismatched :: UBIDistributor where
  "mismatched = snd (snd (ProcessClaim test_env finalized10 claim_other_epoch root0 0))"

section \<open>Targets and compact values of the round trip\<close>

text \<open>
  A target that the compact form holds without loss: it is zero, or every byte below the
  bytes that the mantissa keeps is zero. The mantissa keeps the three most significant
  bytes when the top byte is below \<open>0x80\<close>, and the two most significant bytes when the top
  byte has its high bit set; the latter only for a top byte at an index from 3 to 30.
\<close>

definition fits_compact :: "Hash256 \<Rightarrow> bool" where
  "fits_compact t =
     (case find_msb 32 t of
        None \<Rightarrow> True
      | Some m \<Rightarrow>
          if t ! m < 0x80 then list_all (\<lambda>b. b = 0) (take (m - 2) t)
          else 3 \<le> m \<and> m \<le> 30 \<and> list_all (\<lambda>b. b = 0) (take (m - 1) t))"

text \<open>
  A canonical compact value: zero, or the sign bit is clear and the size cannot be
  shrunk. The mantissa bytes are the bytes 0 to 2 of the compact value, the size is its
  byte 3. For a size from 1 to 3 the top mantissa byte is not zero and the mantissa bytes
  that the size cuts off are zero; for a size from 4 to 32 the top mantissa byte is not
  zero, or (from size 5 on) it is zero and the middle byte has its high bit set.
\<close>

definition canonical_compact :: "32 word \<Rightarrow> bool" where
  "canonical_compact c =
     (c = 0 \<or>
      (c AND 0x00800000 = 0 \<and>
       (let size = unat (byte_at c 3); top = byte_at c 2; mid = byte_at c 1; low = byte_at c 0
        in if size \<le> 3
           then 1 \<le> size \<and> top \<noteq> 0 \<and> (size = 3 \<or> low = 0) \<and> (2 \<le> size \<or> mid = 0)
           else size \<le> 32 \<and> (top \<noteq> 0 \<or> (5 \<le> size \<and> 0x80 \<le> mid)))))"

text \<open>
  A target of at most three significant bytes whose top byte has its high bit set: the
  short branch of \<^verbatim>\<open>BigToCompact\<close> packs it without looking at the sign bit.
\<close>

definition short_high_bit :: "Hash256 \<Rightarrow> bool" where
  "short_high_bit t =
     (case find_msb 32 t of None \<Rightarrow> False | Some m \<Rightarrow> m < 3 \<and> 0x80 \<le> t ! m)"

text \<open>
  A target with four significant bytes, \<open>0x01000001\<close>, below the limit of the S1 network.
\<close>

definition lossy_target :: Hash256 where
  "lossy_target = [1, 0, 0, 1] @ replicate 28 0"

section \<open>Properties of the block subsidy\<close>

lemma sint_word_of_int_32:
  assumes "0 \<le> k" and "k < 2 ^ 31"
  shows "sint (word_of_int k :: 32 word) = k"
proof -
  have "sint (word_of_int k :: 32 word) = signed_take_bit 31 k"
    by (simp add: signed_of_int)
  also have "\<dots> = k"
    by (rule signed_take_bit_int_eq_self) (use assms in simp_all)
  finally show ?thesis .
qed

lemma GetBlockSubsidy_at_halving:
  assumes n: "n \<le> 63"
      and I: "0 < sint (nSubsidyHalvingInterval p)"
      and b: "int n * sint (nSubsidyHalvingInterval p) < 2 ^ 31"
  shows "GetBlockSubsidy (word_of_int (int n * sint (nSubsidyHalvingInterval p))) p
           = Some (signed_drop_bit n (nInitialBlockReward p))"
proof -
  let ?I = "sint (nSubsidyHalvingInterval p)"
  let ?h = "word_of_int (int n * ?I) :: 32 word"
  have nn: "0 \<le> int n * ?I"
    using I by simp
  have s: "sint ?h = int n * ?I"
    using nn b by (rule sint_word_of_int_32)
  have d: "(int n * ?I) sdiv ?I = int n"
    using I nn by (cases "n = 0") (simp_all add: signed_divide_int_def sgn_mult abs_mult)
  show ?thesis
  proof (cases "n = 0")
    case True
    then show ?thesis by (simp add: GetBlockSubsidy_def)
  next
    case False
    hence "sint ?h \<noteq> 0"
      using s I by simp
    hence "?h \<noteq> 0"
      by auto
    then show ?thesis
      using I n s d by (simp add: GetBlockSubsidy_def Let_def)
  qed
qed

lemma GetBlockSubsidy_exhausted:
  assumes "sint (nSubsidyHalvingInterval p) \<noteq> 0"
      and "\<not> (sint h = - (2 ^ 31) \<and> sint (nSubsidyHalvingInterval p) = - 1)"
      and "64 \<le> sint h sdiv sint (nSubsidyHalvingInterval p)"
  shows "GetBlockSubsidy h p = Some 0"
  using assms by (auto simp: GetBlockSubsidy_def Let_def)

lemma GetBlockSubsidy_s1:
  "GetBlockSubsidy 0 s1_params = Some 5000000000"
  "GetBlockSubsidy 210000 s1_params = Some 2500000000"
  "GetBlockSubsidy 13440000 s1_params = Some 0"
  by (simp_all add: GetBlockSubsidy_def s1_params_def signed_divide_int_def)

text \<open>
  Claim C9. For every \<open>n\<close> from 0 to 63 (with a positive halving interval, and
  \<open>n\<close> times the interval a valid \<^verbatim>\<open>int\<close> height) the subsidy at height
  \<open>n * HalvingInterval\<close> is the initial reward shifted right by \<open>n\<close>; the subsidy is 0 at
  every height whose quotient by the interval is at least 64; and on the network with
  initial reward 50 * 10^8 and halving interval 210 000 the subsidy is 5 000 000 000 at
  height 0, 2 500 000 000 at height 210 000 and 0 at height 13 440 000.
\<close>

theorem GetBlockSubsidy_halving_schedule:
  "(n \<le> 63 \<and> 0 < sint (nSubsidyHalvingInterval p) \<and>
      int n * sint (nSubsidyHalvingInterval p) < 2 ^ 31 \<longrightarrow>
      GetBlockSubsidy (word_of_int (int n * sint (nSubsidyHalvingInterval p))) p
        = Some (signed_drop_bit n (nInitialBlockReward p))) \<and>
   (sint (nSubsidyHalvingInterval p) \<noteq> 0 \<and>
      \<not> (sint h = - (2 ^ 31) \<and> sint (nSubsidyHalvingInterval p) = - 1) \<and>
      64 \<le> sint h sdiv sint (nSubsidyHalvingInterval p) \<longrightarrow>
      GetBlockSubsidy h p = Some 0) \<and>
   GetBlockSubsidy 0 s1_params = Some 5000000000 \<and>
   GetBlockSubsidy 210000 s1_params = Some 2500000000 \<and>
   GetBlockSubsidy 13440000 s1_params = Some 0"
  using GetBlockSubsidy_at_halving [of n p] GetBlockSubsidy_exhausted [of p h]
  by (simp add: GetBlockSubsidy_s1)

text \<open>
  Witness for C9: the third halving of the S1 network, at height 630 000, and the height
  13 440 000 = 64 * 210 000 where the subsidy has run out.
\<close>

theorem GetBlockSubsidy_halving_schedule_witness:
  "((3 :: nat) \<le> 63 \<and> 0 < sint (nSubsidyHalvingInterval s1_params) \<and>
      int 3 * sint (nSubsidyHalvingInterval s1_params) < 2 ^ 31) \<and>
   GetBlockSubsidy 630000 s1_params = Some 625000000 \<and>
   (sint (nSubsidyHalvingInterval s1_params) \<noteq> 0 \<and>
      \<not> (sint (13440000 :: 32 word) = - (2 ^ 31) \<and> sint (nSubsidyHalvingInterval s1_params) = - 1) \<and>
      64 \<le> sint (13440000 :: 32 word) sdiv sint (nSubsidyHalvingInterval s1_params)) \<and>
   GetBlockSubsidy 13440000 s1_params = Some 0"
  using GetBlockSubsidy_halving_schedule [of 3 s1_params 13440000]
  by (simp add: s1_params_def signed_divide_int_def)

section \<open>Properties of the proof-of-work check\<close>

lemma exceeds_limit_zero: "n \<le> 32 \<Longrightarrow> exceeds_limit n (replicate 32 0) l = False"
  by (induction n) auto

lemma hash_to_nat_zero: "hash_to_nat (replicate n 0) = 0"
  by (induction n) auto

lemma sign_bit_target: "bits AND 0x00800000 \<noteq> 0 \<Longrightarrow> CompactToBig bits = replicate 32 0"
  by (simp add: CompactToBig_def Let_def)

text \<open>
  Claim C10. A compact target whose sign bit \<open>0x00800000\<close> is set expands to the all-zero
  target, no hash is below the zero target, and \<^verbatim>\<open>CheckProofOfWork\<close> returns false for
  every block hash and every network.
\<close>

theorem CheckProofOfWork_rejects_sign_bit:
  "bits AND 0x00800000 \<noteq> 0 \<Longrightarrow>
   CompactToBig bits = replicate 32 0 \<and>
   \<not> Hash256_less hash (replicate 32 0) \<and>
   CheckProofOfWork hash bits params = False"
  by (simp add: CheckProofOfWork_def Let_def sign_bit_target exceeds_limit_zero
        Hash256_less_def hash_to_nat_zero)

text \<open>Witness for C10: the compact value \<open>0x1d80ffff\<close> on the S1 network.\<close>

theorem CheckProofOfWork_rejects_sign_bit_witness:
  "(0x1d80ffff :: 32 word) AND 0x00800000 \<noteq> 0 \<and>
   CompactToBig 0x1d80ffff = replicate 32 0 \<and>
   \<not> Hash256_less (replicate 32 0) (replicate 32 0) \<and>
   CheckProofOfWork (replicate 32 0) 0x1d80ffff s1_params = False"
  using CheckProofOfWork_rejects_sign_bit [of "0x1d80ffff" "replicate 32 0" s1_params]
  by simp

section \<open>Properties of the PoUW commitment check\<close>

lemma plain_block_no_commitment:
  "ExtractPoUWCommitment 0x6a (hd (vtx plain_block)) = None"
  by (simp add: plain_block_def ExtractPoUWCommitment_def)

text \<open>
  Claim C4, as stated, fails: a non-genesis block without a commitment is also accepted
  when the network does not mark PoUW optional but disables retargeting. On such a network
  \<^verbatim>\<open>VerifyUsefulWork\<close> returns true although \<^verbatim>\<open>fPoUWOptional\<close> is false.
\<close>

theorem VerifyUsefulWork_no_commitment_counterexample:
  "vtx plain_block \<noteq> [] \<and>
   \<not> (\<forall>b \<in> set (hashPrevBlock plain_block). b = 0) \<and>
   ExtractPoUWCommitment 0x6a (hd (vtx plain_block)) = None \<and>
   \<not> fPoUWOptional noretarget_params \<and>
   VerifyUsefulWork (\<lambda>tx. True) 0x6a plain_block noretarget_params = True"
  by (simp add: plain_block_def ExtractPoUWCommitment_def VerifyUsefulWork_def
        noretarget_params_def s1_params_def)

text \<open>
  Claim C4, amended. For every block whose first transaction is a coinbase, whose
  previous hash is not null and whose coinbase contains no PoUW commitment,
  \<^verbatim>\<open>VerifyUsefulWork\<close> returns true if and only if the network marks PoUW optional or
  disables retargeting (\<^verbatim>\<open>fPoUWOptional\<close> or \<^verbatim>\<open>fPowNoRetargeting\<close>).
\<close>

theorem VerifyUsefulWork_no_commitment:
  "vtx block = coinbase # rest \<Longrightarrow> IsCoinBase coinbase \<Longrightarrow>
   \<not> (\<forall>b \<in> set (hashPrevBlock block). b = 0) \<Longrightarrow>
   ExtractPoUWCommitment opReturn coinbase = None \<Longrightarrow>
   VerifyUsefulWork IsCoinBase opReturn block params
     = (fPoUWOptional params \<or> fPowNoRetargeting params)"
  by (simp add: VerifyUsefulWork_def)

text \<open>
  Witness for C4: the block without a commitment is accepted on a network that marks PoUW
  optional.
\<close>

theorem VerifyUsefulWork_no_commitment_witness:
  "vtx plain_block = hd (vtx plain_block) # [] \<and>
   \<not> (\<forall>b \<in> set (hashPrevBlock plain_block). b = 0) \<and>
   ExtractPoUWCommitment 0x6a (hd (vtx plain_block)) = None \<and>
   VerifyUsefulWork (\<lambda>tx. True) 0x6a plain_block optional_params
     = (fPoUWOptional optional_params \<or> fPowNoRetargeting optional_params) \<and>
   VerifyUsefulWork (\<lambda>tx. True) 0x6a plain_block optional_params"
proof -
  have 1: "vtx plain_block = hd (vtx plain_block) # []"
    by (simp add: plain_block_def)
  have 2: "\<not> (\<forall>b \<in> set (hashPrevBlock plain_block). b = 0)"
    by (simp add: plain_block_def)
  have 3: "ExtractPoUWCommitment 0x6a (hd (vtx plain_block)) = None"
    by (rule plain_block_no_commitment)
  have 4: "(\<lambda>tx. True) (hd (vtx plain_block))"
    by simp
  from VerifyUsefulWork_no_commitment
         [of plain_block "hd (vtx plain_block)" "[]" "\<lambda>tx. True" "0x6a" optional_params,
          OF 1 4 2 3] 1 2 3
  show ?thesis
    by (simp add: optional_params_def s1_params_def)
qed

section \<open>Properties of the min-difficulty rule\<close>

lemma walk_back_chain:
  "interval \<noteq> 0 \<Longrightarrow>
   walk_back b interval m =
     Some (hd (dropWhile (\<lambda>x. pprev x \<noteq> None \<and> sint (nHeight x) smod interval \<noteq> 0 \<and> nBits x = m)
                 (chain b)))"
proof (induction b interval m rule: walk_back.induct)
  case (1 h t b pp interval minBits)
  show ?case
  proof (cases pp)
    case None
    then show ?thesis by simp
  next
    case (Some prev)
    with 1 show ?thesis by simp
  qed
qed

lemma chain_nonempty: "chain b \<noteq> []"
  by (induction b rule: chain.induct) auto

lemma chain_last_genesis: "pprev (last (chain b)) = None"
  by (induction b rule: chain.induct) (auto simp: chain_nonempty)

lemma dropWhile_run:
  "\<forall>x \<in> set (takeWhile Q xs). P x \<Longrightarrow> (\<And>x. P x \<and> Q x \<longleftrightarrow> R x) \<Longrightarrow> (\<And>x. R x \<Longrightarrow> Q x) \<Longrightarrow>
   dropWhile R xs = dropWhile Q xs"
  by (induction xs) auto

lemma run_ends:
  assumes "\<forall>x \<in> set (takeWhile Q (chain b)). pprev x \<noteq> None"
  shows "dropWhile Q (chain b) \<noteq> []"
proof
  assume "dropWhile Q (chain b) = []"
  hence "takeWhile Q (chain b) = chain b"
    by (metis append_Nil2 takeWhile_dropWhile_id)
  with assms have "pprev (last (chain b)) \<noteq> None"
    using chain_nonempty [of b] by (metis last_in_set)
  thus False
    by (simp add: chain_last_genesis)
qed

lemma testnet_min_bits: "BigToCompact (powLimit testnet_params) = 0x1d00ffff"
  by code_simp

text \<open>
  Claim C8, as stated, fails: the walk back also stops at a block whose height is a
  multiple of the adjustment interval. With an interval of 4, the block at height 4 is a
  min-difficulty block and its parent carries the real target \<open>0x1c00ffff\<close>; for the next
  header, 600 s later, \<^verbatim>\<open>GetNextWorkRequired\<close> returns the min-difficulty compact
  target and not the parent's nBits.
\<close>

theorem GetNextWorkRequired_min_difficulty_counterexample:
  "fAllowMinDifficultyBlocks testnet_params \<and>
   nBits chain4 = BigToCompact (powLimit testnet_params) \<and>
   pprev chain4 = Some chain3 \<and>
   nBits chain3 \<noteq> BigToCompact (powLimit testnet_params) \<and>
   \<not> uint (nTime next_header)
       > sint (GetBlockTime chain4) + sint (nPowTargetSpacing testnet_params) * 2 \<and>
   GetNextWorkRequired (Some chain4) (Some next_header) testnet_params
     = Some (BigToCompact (powLimit testnet_params)) \<and>
   GetNextWorkRequired (Some chain4) (Some next_header) testnet_params \<noteq> Some (nBits chain3)"
  by (simp add: testnet_min_bits chain4_def chain3_def next_header_def GetNextWorkRequired_def)
     (simp add: testnet_params_def s1_params_def signed_modulo_int_def)

text \<open>
  Claim C8, amended. On a network that permits min-difficulty blocks and does not disable
  retargeting (adjustment interval not zero), for a next header whose time does not exceed
  the previous block's time by more than twice the target spacing: if no block of the
  consecutive run of min-difficulty blocks that ends at the previous block is the first
  block of the chain or sits at a height that is a multiple of the adjustment interval,
  then \<^verbatim>\<open>GetNextWorkRequired\<close> returns the nBits of the last block before that run, and
  this is not the min-difficulty compact target.
\<close>

theorem GetNextWorkRequired_min_difficulty_reentry:
  assumes allow: "fAllowMinDifficultyBlocks params"
      and retarget: "\<not> fPowNoRetargeting params"
      and nogap: "\<not> uint (nTime hdr)
                     > sint (GetBlockTime pLast) + sint (nPowTargetSpacing params) * 2"
      and interval: "sint (DifficultyAdjustmentInterval params) \<noteq> 0"
      and run: "\<forall>x \<in> set (takeWhile (\<lambda>x. nBits x = BigToCompact (powLimit params)) (chain pLast)).
                  pprev x \<noteq> None \<and>
                  sint (nHeight x) smod sint (DifficultyAdjustmentInterval params) \<noteq> 0"
  shows "GetNextWorkRequired (Some pLast) (Some hdr) params =
           Some (nBits (hd (dropWhile (\<lambda>x. nBits x = BigToCompact (powLimit params))
                              (chain pLast)))) \<and>
         nBits (hd (dropWhile (\<lambda>x. nBits x = BigToCompact (powLimit params)) (chain pLast)))
           \<noteq> BigToCompact (powLimit params)"
proof -
  let ?m = "BigToCompact (powLimit params)"
  let ?W = "sint (DifficultyAdjustmentInterval params)"
  let ?Q = "\<lambda>x. nBits x = ?m"
  let ?R = "\<lambda>x. pprev x \<noteq> None \<and> sint (nHeight x) smod ?W \<noteq> 0 \<and> nBits x = ?m"
  have eq: "dropWhile ?R (chain pLast) = dropWhile ?Q (chain pLast)"
    by (rule dropWhile_run [where P = "\<lambda>x. pprev x \<noteq> None \<and> sint (nHeight x) smod ?W \<noteq> 0"])
       (use run in auto)
  have ne: "dropWhile ?Q (chain pLast) \<noteq> []"
    by (rule run_ends) (use run in blast)
  have "GetNextWorkRequired (Some pLast) (Some hdr) params
          = map_option nBits (walk_back pLast ?W ?m)"
    using allow retarget nogap by (simp add: GetNextWorkRequired_def Let_def)
  also have "\<dots> = Some (nBits (hd (dropWhile ?Q (chain pLast))))"
    using walk_back_chain [OF interval, of pLast ?m] eq by simp
  finally have 1: "GetNextWorkRequired (Some pLast) (Some hdr) params =
           Some (nBits (hd (dropWhile ?Q (chain pLast))))" .
  have 2: "\<not> ?Q (hd (dropWhile ?Q (chain pLast)))"
    using ne by (rule hd_dropWhile)
  from 1 2 show ?thesis
    by simp
qed

text \<open>
  Witness for C8: the min-difficulty block sits at height 5, its parent at height 4
  carries \<open>0x1c00ffff\<close>; the next header inherits \<open>0x1c00ffff\<close>.
\<close>

theorem GetNextWorkRequired_min_difficulty_reentry_witness:
  "fAllowMinDifficultyBlocks testnet_params \<and>
   \<not> fPowNoRetargeting testnet_params \<and>
   \<not> uint (nTime next_header5)
       > sint (GetBlockTime chain5) + sint (nPowTargetSpacing testnet_params) * 2 \<and>
   sint (DifficultyAdjustmentInterval testnet_params) \<noteq> 0 \<and>
   takeWhile (\<lambda>x. nBits x = BigToCompact (powLimit testnet_params)) (chain chain5) = [chain5] \<and>
   pprev chain5 = Some chain4r \<and>
   sint (nHeight chain5) smod sint (DifficultyAdjustmentInterval testnet_params) = 1 \<and>
   GetNextWorkRequired (Some chain5) (Some next_header5) testnet_params = Some 0x1c00ffff"
proof -
  have allow: "fAllowMinDifficultyBlocks testnet_params"
    by (simp add: testnet_params_def)
  have retarget: "\<not> fPowNoRetargeting testnet_params"
    by (simp add: testnet_params_def s1_params_def)
  have nogap: "\<not> uint (nTime next_header5)
       > sint (GetBlockTime chain5) + sint (nPowTargetSpacing testnet_params) * 2"
    by (simp add: next_header5_def chain5_def testnet_params_def s1_params_def)
  have interval: "sint (DifficultyAdjustmentInterval testnet_params) \<noteq> 0"
    by (simp add: testnet_params_def)
  have ch: "chain chain5 = [chain5, chain4r, chain3, chain2, chain1, chain0]"
    by (simp add: chain5_def chain4r_def chain3_def chain2_def chain1_def chain0_def)
  have tw: "takeWhile (\<lambda>x. nBits x = BigToCompact (powLimit testnet_params)) (chain chain5)
              = [chain5]"
    by (simp add: ch testnet_min_bits) (simp add: chain5_def chain4r_def)
  have dw: "hd (dropWhile (\<lambda>x. nBits x = BigToCompact (powLimit testnet_params)) (chain chain5))
              = chain4r"
    by (simp add: ch testnet_min_bits) (simp add: chain5_def chain4r_def)
  have run: "\<forall>x \<in> set (takeWhile (\<lambda>x. nBits x = BigToCompact (powLimit testnet_params))
                           (chain chain5)).
               pprev x \<noteq> None \<and>
               sint (nHeight x) smod sint (DifficultyAdjustmentInterval testnet_params) \<noteq> 0"
    unfolding tw by (simp add: chain5_def testnet_params_def signed_modulo_int_def)
  from GetNextWorkRequired_min_difficulty_reentry [OF allow retarget nogap interval run]
  have "GetNextWorkRequired (Some chain5) (Some next_header5) testnet_params
          = Some (nBits chain4r)"
    unfolding dw by simp
  hence "GetNextWorkRequired (Some chain5) (Some next_header5) testnet_params = Some 0x1c00ffff"
    by (simp add: chain4r_def)
  moreover have "pprev chain5 = Some chain4r"
    by (simp add: chain5_def)
  moreover have "sint (nHeight chain5) smod sint (DifficultyAdjustmentInterval testnet_params) = 1"
    by (simp add: chain5_def testnet_params_def signed_modulo_int_def)
  ultimately show ?thesis
    using allow retarget nogap interval tw by blast
qed

section \<open>Properties of claim processing\<close>

lemma funded_eq:
  "funded = \<lparr> pools = [(0, default_pool \<lparr> epoch := 0, endHeight := 1439, totalPool := 100 \<rparr>)],
              currentEpoch = 0, totalDistributed = 0, totalClaims = 0 \<rparr>"
  by (simp add: funded_def AddBlockReward_def GetOrCreatePool_def new_distributor_def
        test_consts_def default_pool_def Let_def)

lemma starved_eq:
  "starved = \<lparr> pools = [(0, default_pool \<lparr> epoch := 0, endHeight := 1439, claimDeadline := 14399,
                                         totalPool := 100, eligibleCount := 5,
                                         isFinalized := True \<rparr>)],
               currentEpoch = 0, totalDistributed = 0, totalClaims = 0 \<rparr>"
  by (simp add: starved_def funded_eq FinalizeEpoch_def Finalize_def test_consts_def
        default_pool_def Let_def)

lemma finalized10_Some:
  "FinalizeEpoch test_consts funded 0 10 =
     Some \<lparr> pools = [(0, default_pool \<lparr> epoch := 0, endHeight := 1439, claimDeadline := 14399,
                                       totalPool := 100, eligibleCount := 10,
                                       amountPerPerson := 10, isFinalized := True \<rparr>)],
            currentEpoch = 0, totalDistributed = 0, totalClaims = 0 \<rparr>"
  by (simp add: funded_eq FinalizeEpoch_def Finalize_def test_consts_def
        default_pool_def Let_def signed_divide_int_def)

lemma finalized10_eq:
  "finalized10 = \<lparr> pools = [(0, default_pool \<lparr> epoch := 0, endHeight := 1439,
                                             claimDeadline := 14399, totalPool := 100,
                                             eligibleCount := 10, amountPerPerson := 10,
                                             isFinalized := True \<rparr>)],
                   currentEpoch = 0, totalDistributed = 0, totalClaims = 0 \<rparr>"
  by (simp add: finalized10_def finalized10_Some)

lemma claim_a_valid:
  "ProcessClaim test_env finalized10 claim_a root0 0 =
     (Valid, claim_a \<lparr> amount := 10, status := Valid \<rparr>,
      \<lparr> pools = [(0, default_pool \<lparr> epoch := 0, endHeight := 1439, claimDeadline := 14399,
                                   totalPool := 100, eligibleCount := 10, amountPerPerson := 10,
                                   amountClaimed := 10, claimCount := 1, isFinalized := True,
                                   usedNullifiers := [claimNullifier claim_a] \<rparr>)],
        currentEpoch = 0, totalDistributed = 10, totalClaims = 1 \<rparr>)"
  by (simp add: finalized10_eq ProcessClaim_def claim_a_def test_env_def good_proof_def
        root0_def AcceptingClaims_def IsNullifierUsed_def RecordClaim_def set_insert_def
        default_pool_def hash_to_nat_zero Let_def)

lemma claimed1_eq:
  "claimed1 =
     \<lparr> pools = [(0, default_pool \<lparr> epoch := 0, endHeight := 1439, claimDeadline := 14399,
                                  totalPool := 100, eligibleCount := 10, amountPerPerson := 10,
                                  amountClaimed := 10, claimCount := 1, isFinalized := True,
                                  usedNullifiers := [claimNullifier claim_a] \<rparr>)],
       currentEpoch = 0, totalDistributed = 10, totalClaims = 1 \<rparr>"
  by (simp add: claimed1_def claim_a_valid)

lemma claim_a_bad_double:
  "fst (ProcessClaim test_env claimed1 claim_a_bad root0 0) = DoubleClaim"
  by (simp add: claimed1_eq ProcessClaim_def claim_a_bad_def claim_a_def reject_def
        AcceptingClaims_def IsNullifierUsed_def default_pool_def Let_def)

lemma claim_a_bad_proof: "\<not> spec_proof_ok test_env claim_a_bad root0"
  by (simp add: spec_proof_ok_def claim_a_bad_def test_env_def bad_proof_def)

lemma ProcessClaim_status:
  "fst (ProcessClaim env D claim root h) = spec_claim_status env D claim root h"
  by (simp add: ProcessClaim_def spec_claim_status_def spec_proof_ok_def reject_def Let_def
        AcceptingClaims_def IsNullifierUsed_def split: option.splits)

lemma ProcessClaim_writes_status:
  "status (fst (snd (ProcessClaim env D claim root h))) = fst (ProcessClaim env D claim root h)"
  by (simp add: ProcessClaim_def reject_def Let_def split: option.splits)

lemma ProcessClaim_failure_keeps_state:
  "fst (ProcessClaim env D claim root h) \<noteq> Valid \<Longrightarrow>
   snd (snd (ProcessClaim env D claim root h)) = D"
  by (simp add: ProcessClaim_def reject_def Let_def split: option.splits if_splits)

text \<open>
  Claim C5. The status that \<^verbatim>\<open>ProcessClaim\<close> returns is the one given by the fixed order
  \<^verbatim>\<open>EpochNotComplete\<close>, \<^verbatim>\<open>EpochExpired\<close>, \<^verbatim>\<open>PoolEmpty\<close>, \<^verbatim>\<open>DoubleClaim\<close>,
  \<^verbatim>\<open>InvalidProof\<close> (else \<^verbatim>\<open>Valid\<close>), and it is the status written into the claim. In
  particular a claim whose nullifier is already used in its pool and whose proof is invalid
  never gets \<^verbatim>\<open>InvalidProof\<close>: it gets one of the four earlier statuses, and
  \<^verbatim>\<open>DoubleClaim\<close> whenever the pool is finalized, not expired and not empty.
\<close>

theorem ProcessClaim_check_order:
  "fst (ProcessClaim env D claim root h) = spec_claim_status env D claim root h \<and>
   status (fst (snd (ProcessClaim env D claim root h))) = fst (ProcessClaim env D claim root h) \<and>
   (map_of (pools D) (claimEpoch claim) = Some pool \<and>
    claimNullifier claim \<in> set (usedNullifiers pool) \<and>
    \<not> spec_proof_ok env claim root \<longrightarrow>
      fst (ProcessClaim env D claim root h)
        \<in> {EpochNotComplete, EpochExpired, PoolEmpty, DoubleClaim} \<and>
      (isFinalized pool \<and> sint h \<le> sint (claimDeadline pool) \<and> amountPerPerson pool \<noteq> 0 \<longrightarrow>
         fst (ProcessClaim env D claim root h) = DoubleClaim))"
  by (simp add: ProcessClaim_status ProcessClaim_writes_status)
     (simp add: spec_claim_status_def)

text \<open>
  Witness for C5: after one valid claim on the pool of epoch 0, the same nullifier
  submitted again with an invalid proof is a \<^verbatim>\<open>DoubleClaim\<close>.
\<close>

theorem ProcessClaim_check_order_witness:
  "map_of (pools claimed1) (claimEpoch claim_a_bad) = Some (snd (hd (pools claimed1))) \<and>
   claimNullifier claim_a_bad \<in> set (usedNullifiers (snd (hd (pools claimed1)))) \<and>
   \<not> spec_proof_ok test_env claim_a_bad root0 \<and>
   isFinalized (snd (hd (pools claimed1))) \<and>
   sint (0 :: 32 word) \<le> sint (claimDeadline (snd (hd (pools claimed1)))) \<and>
   amountPerPerson (snd (hd (pools claimed1))) \<noteq> 0 \<and>
   fst (ProcessClaim test_env claimed1 claim_a_bad root0 0) = DoubleClaim \<and>
   status (fst (snd (ProcessClaim test_env claimed1 claim_a_bad root0 0))) = DoubleClaim"
proof -
  let ?P = "snd (hd (pools claimed1))"
  have 1: "map_of (pools claimed1) (claimEpoch claim_a_bad) = Some ?P"
    by (simp add: claimed1_eq claim_a_bad_def claim_a_def)
  have 2: "claimNullifier claim_a_bad \<in> set (usedNullifiers ?P)"
    by (simp add: claimed1_eq claim_a_bad_def default_pool_def)
  have 3: "\<not> spec_proof_ok test_env claim_a_bad root0"
    by (rule claim_a_bad_proof)
  have 4: "isFinalized ?P"
    by (simp add: claimed1_eq default_pool_def)
  have 5: "sint (0 :: 32 word) \<le> sint (claimDeadline ?P)"
    by (simp add: claimed1_eq default_pool_def)
  have 6: "amountPerPerson ?P \<noteq> 0"
    by (simp add: claimed1_eq default_pool_def)
  from ProcessClaim_check_order [of test_env claimed1 claim_a_bad root0 0 ?P] 1 2 3 4 5 6
  have "fst (ProcessClaim test_env claimed1 claim_a_bad root0 0) = DoubleClaim \<and>
        status (fst (snd (ProcessClaim test_env claimed1 claim_a_bad root0 0))) = DoubleClaim"
    by metis
  with 1 2 3 4 5 6 show ?thesis
    by blast
qed

text \<open>
  Claim C6. A \<^verbatim>\<open>ProcessClaim\<close> that returns a status other than \<^verbatim>\<open>Valid\<close> leaves
  the distributor as it was: the pool of the claim's epoch (its used nullifiers, its
  \<^verbatim>\<open>amountClaimed\<close> and \<^verbatim>\<open>claimCount\<close>) and the totals \<^verbatim>\<open>totalDistributed\<close> and
  \<^verbatim>\<open>totalClaims\<close> are unchanged.
\<close>

theorem ProcessClaim_failure_atomic:
  "fst (ProcessClaim env D claim root h) \<noteq> Valid \<Longrightarrow>
   snd (snd (ProcessClaim env D claim root h)) = D \<and>
   map_of (pools (snd (snd (ProcessClaim env D claim root h)))) (claimEpoch claim)
     = map_of (pools D) (claimEpoch claim) \<and>
   totalDistributed (snd (snd (ProcessClaim env D claim root h))) = totalDistributed D \<and>
   totalClaims (snd (snd (ProcessClaim env D claim root h))) = totalClaims D"
  by (simp add: ProcessClaim_failure_keeps_state)

text \<open>
  Witness for C6: the double claim with an invalid proof leaves the distributor with one
  recorded claim unchanged.
\<close>

theorem ProcessClaim_failure_atomic_witness:
  "fst (ProcessClaim test_env claimed1 claim_a_bad root0 0) \<noteq> Valid \<and>
   snd (snd (ProcessClaim test_env claimed1 claim_a_bad root0 0)) = claimed1 \<and>
   totalClaims (snd (snd (ProcessClaim test_env claimed1 claim_a_bad root0 0))) = 1"
proof -
  have ne: "fst (ProcessClaim test_env claimed1 claim_a_bad root0 0) \<noteq> Valid"
    by (simp add: claim_a_bad_double)
  from ProcessClaim_failure_atomic [OF ne] ne show ?thesis
    by (simp add: claimed1_eq)
qed

text \<open>
  Claim C2 does not hold of the code: \<^verbatim>\<open>VerifyClaim\<close> has no check of
  \<^verbatim>\<open>amountPerPerson == 0\<close>. On a pool finalized with fewer identities than the
  threshold, a fresh claim with a valid proof passes \<^verbatim>\<open>VerifyClaim\<close> while
  \<^verbatim>\<open>ProcessClaim\<close> on the same state and arguments returns \<^verbatim>\<open>PoolEmpty\<close>.
\<close>

theorem VerifyClaim_misses_PoolEmpty:
  "VerifyClaim test_env starved claim_a root0 0 = True \<and>
   fst (ProcessClaim test_env starved claim_a root0 0) = PoolEmpty"
  by (simp add: starved_eq VerifyClaim_def ProcessClaim_def claim_a_def test_env_def
        good_proof_def root0_def AcceptingClaims_def IsNullifierUsed_def reject_def
        default_pool_def hash_to_nat_zero Let_def)

section \<open>Funds conservation\<close>

lemma map_of_AddBlockReward:
  "map_of (pools (AddBlockReward c D height amt)) =
     (map_of (pools D))
       (HeightToEpoch c height \<mapsto>
          (case map_of (pools D) (HeightToEpoch c height) of
             None \<Rightarrow> default_pool \<lparr> epoch := HeightToEpoch c height,
                                    endHeight := EpochEndHeight c (HeightToEpoch c height),
                                    totalPool := amt \<rparr>
           | Some pool \<Rightarrow> pool \<lparr> totalPool := totalPool pool + amt \<rparr>))"
  by (auto simp: AddBlockReward_def GetOrCreatePool_def Let_def update_conv' default_pool_def
           split: option.splits)

lemma map_of_filter_keys:
  "map_of (filter (\<lambda>(k, v). Q k) xs) k = (if Q k then map_of xs k else None)"
  by (induction xs) auto

lemma map_of_PruneOldPools:
  "map_of (pools (PruneOldPools c D cur)) e = Some p \<Longrightarrow> map_of (pools D) e = Some p"
  by (simp add: PruneOldPools_def Let_def map_of_filter_keys split: if_splits)

lemma sint_add_no_overflow:
  fixes a b :: "64 word"
  assumes "0 \<le> sint a" "0 \<le> sint b" "sint a + sint b < 2 ^ 63"
  shows "sint (a + b) = sint a + sint b"
proof -
  have "sint (a + b) = signed_take_bit 63 (sint a + sint b)"
    by (simp add: sint_word_ariths)
  also have "\<dots> = sint a + sint b"
    by (rule signed_take_bit_int_eq_self) (use assms in simp_all)
  finally show ?thesis .
qed

lemma pool_inv_default: "0 \<le> sint amt \<Longrightarrow> pool_inv (default_pool \<lparr> epoch := e, endHeight := h, totalPool := amt \<rparr>)"
  by (simp add: pool_inv_def default_pool_def)

lemma pool_inv_reward:
  assumes "pool_inv p" "0 \<le> sint amt" "sint (totalPool p) + sint amt < 2 ^ 63"
  shows "pool_inv (p \<lparr> totalPool := totalPool p + amt \<rparr>)"
proof -
  have "sint (totalPool p + amt) = sint (totalPool p) + sint amt"
    using assms by (intro sint_add_no_overflow) (simp_all add: pool_inv_def)
  with assms show ?thesis
    by (auto simp: pool_inv_def)
qed

lemma int_div_bounds:
  fixes t n :: int
  assumes "0 \<le> t" "0 < n"
  shows "0 \<le> t div n" and "n * (t div n) \<le> t" and "t div n \<le> t"
proof -
  show 1: "0 \<le> t div n"
    using assms by (simp add: pos_imp_zdiv_nonneg_iff)
  show 2: "n * (t div n) \<le> t"
    using mult_div_mod_eq [of n t] pos_mod_sign [of n t] assms(2) by linarith
  have "1 * (t div n) \<le> n * (t div n)"
    using 1 assms(2) by (intro mult_right_mono) simp_all
  with 2 show "t div n \<le> t"
    by simp
qed

lemma uint_pos: "n \<noteq> 0 \<Longrightarrow> 0 < uint n"
  using uint_0_iff [of n] uint_ge_0 [of n] by linarith

lemma sint_quotient:
  fixes t :: "64 word" and n :: "32 word"
  assumes "0 \<le> sint t" "n \<noteq> 0"
  shows "sint (word_of_int (sint t sdiv uint n) :: 64 word) = sint t div uint n"
proof -
  have n: "0 < uint n"
    using assms(2) by (rule uint_pos)
  have eq: "sint t sdiv uint n = sint t div uint n"
    using assms(1) n by (simp add: signed_divide_int_def sgn_if)
  have "0 \<le> sint t div uint n"
    using assms(1) n by (rule int_div_bounds)
  moreover have "sint t div uint n \<le> sint t"
    using assms(1) n by (rule int_div_bounds)
  moreover have "sint t < 2 ^ 63"
    using sint_lt [of t] by simp
  ultimately have "signed_take_bit 63 (sint t div uint n) = sint t div uint n"
    by (intro signed_take_bit_int_eq_self) simp_all
  thus ?thesis
    by (simp add: eq signed_of_int)
qed

lemma pool_inv_Finalize:
  assumes inv: "pool_inv p" and nf: "\<not> isFinalized p" and max: "0 \<le> sint (MAX_UBI_PER_PERSON c)"
      and fin: "Finalize c p n = Some p'"
  shows "pool_inv p'"
proof (cases "n \<ge> MIN_IDENTITIES_FOR_UBI c")
  case False
  with fin have "p' = p \<lparr> eligibleCount := n, amountPerPerson := 0, isFinalized := True \<rparr>"
    by (simp add: Finalize_def)
  with inv nf show ?thesis
    by (auto simp: pool_inv_def)
next
  case True
  with fin have n0: "n \<noteq> 0"
    by (auto simp: Finalize_def split: if_splits)
  let ?q = "word_of_int (sint (totalPool p) sdiv uint n) :: 64 word"
  let ?cap = "if sint (MAX_UBI_PER_PERSON c) < sint ?q then MAX_UBI_PER_PERSON c else ?q"
  from fin True n0 have p': "p' = p \<lparr> eligibleCount := n, amountPerPerson := ?cap, isFinalized := True \<rparr>"
    by (simp add: Finalize_def Let_def)
  have tp: "0 \<le> sint (totalPool p)"
    using inv by (simp add: pool_inv_def)
  have q: "sint ?q = sint (totalPool p) div uint n"
    using tp n0 by (rule sint_quotient)
  have npos: "0 < uint n"
    using n0 by (rule uint_pos)
  have q0: "0 \<le> sint ?q"
    using q tp npos by (simp add: pos_imp_zdiv_nonneg_iff)
  have cap0: "0 \<le> sint ?cap"
    using q0 max by simp
  have "sint ?cap \<le> sint ?q"
    by simp
  hence "uint n * sint ?cap \<le> uint n * sint ?q"
    using npos by (simp add: mult_left_mono)
  also have "\<dots> \<le> sint (totalPool p)"
    unfolding q using tp npos by (rule int_div_bounds)
  finally have bound: "uint n * sint ?cap \<le> sint (totalPool p)" .
  from inv nf have "usedNullifiers p = []"
    by (simp add: pool_inv_def)
  with inv cap0 bound tp show ?thesis
    unfolding p' by (simp add: pool_inv_def)
qed

lemma pool_inv_RecordClaim:
  assumes "pool_inv p" "isFinalized p" "n \<notin> set (usedNullifiers p)"
  shows "pool_inv (RecordClaim p n (amountPerPerson p))"
  using assms by (simp add: pool_inv_def RecordClaim_def set_insert_def algebra_simps)

lemma dist_inv_AddBlockReward:
  assumes "dist_inv D" "0 \<le> sint amt" "sint (pool_total D (HeightToEpoch c height)) + sint amt < 2 ^ 63"
  shows "dist_inv (AddBlockReward c D height amt)"
  unfolding dist_inv_def
proof (intro allI impI)
  fix e p
  assume m: "map_of (pools (AddBlockReward c D height amt)) e = Some p"
  show "pool_inv p"
  proof (cases "e = HeightToEpoch c height")
    case False
    with m assms(1) show ?thesis
      by (simp add: map_of_AddBlockReward dist_inv_def)
  next
    case True
    show ?thesis
    proof (cases "map_of (pools D) (HeightToEpoch c height)")
      case None
      with m True assms(2) show ?thesis
        by (auto simp: map_of_AddBlockReward intro: pool_inv_default)
    next
      case (Some q)
      hence "pool_inv q" using assms(1) by (simp add: dist_inv_def)
      moreover have "sint (totalPool q) + sint amt < 2 ^ 63"
        using assms(3) Some by (simp add: pool_total_def)
      ultimately have "pool_inv (q \<lparr> totalPool := totalPool q + amt \<rparr>)"
        using assms(2) by (intro pool_inv_reward)
      with m True Some show ?thesis
        by (auto simp: map_of_AddBlockReward)
    qed
  qed
qed

lemma pool_inv_heights:
  "pool_inv (p \<lparr> endHeight := a \<rparr>) = pool_inv p"
  "pool_inv (p \<lparr> claimDeadline := b \<rparr>) = pool_inv p"
  by (simp_all add: pool_inv_def)

lemma dist_inv_FinalizeEpoch:
  assumes inv: "dist_inv D" and nf: "\<not> epoch_finalized D e" and max: "0 \<le> sint (MAX_UBI_PER_PERSON c)"
      and fin: "FinalizeEpoch c D e n = Some D'"
  shows "dist_inv D'"
proof (cases "map_of (pools D) e")
  case None
  with fin inv show ?thesis by (simp add: FinalizeEpoch_def)
next
  case (Some p)
  let ?p2 = "p \<lparr> endHeight := EpochEndHeight c e,
                 claimDeadline := EpochEndHeight c e + UBI_CLAIM_WINDOW c + UBI_GRACE_EPOCHS c * EPOCH_BLOCKS c \<rparr>"
  from fin Some obtain p3 where p3: "Finalize c ?p2 n = Some p3"
    and D': "D' = D \<lparr> pools := AList.update e p3 (pools D) \<rparr>"
    by (auto simp: FinalizeEpoch_def Let_def)
  have "pool_inv p" using inv Some by (simp add: dist_inv_def)
  hence "pool_inv ?p2" by (simp add: pool_inv_def)
  moreover have "\<not> isFinalized ?p2" using nf Some by (simp add: epoch_finalized_def)
  ultimately have "pool_inv p3" using max p3 by (rule pool_inv_Finalize)
  with inv show ?thesis
    by (auto simp: D' dist_inv_def update_conv')
qed

lemma dist_inv_ProcessClaim:
  assumes inv: "dist_inv D"
  shows "dist_inv (snd (snd (ProcessClaim env D claim root h)))"
proof (cases "fst (ProcessClaim env D claim root h) = Valid")
  case False
  hence "snd (snd (ProcessClaim env D claim root h)) = D"
    by (simp add: ProcessClaim_def reject_def Let_def split: option.splits if_splits)
  with inv show ?thesis by simp
next
  case True
  then obtain p where p: "map_of (pools D) (claimEpoch claim) = Some p"
    and f: "isFinalized p" and u: "claimNullifier claim \<notin> set (usedNullifiers p)"
    and D': "snd (snd (ProcessClaim env D claim root h)) =
       D \<lparr> pools := AList.update (claimEpoch claim) (RecordClaim p (claimNullifier claim) (amountPerPerson p)) (pools D),
           totalDistributed := totalDistributed D + amountPerPerson p,
           totalClaims := totalClaims D + 1 \<rparr>"
    by (auto simp: ProcessClaim_def reject_def Let_def IsNullifierUsed_def split: option.splits if_splits)
  have "pool_inv p" using inv p by (simp add: dist_inv_def)
  hence "pool_inv (RecordClaim p (claimNullifier claim) (amountPerPerson p))"
    using f u by (rule pool_inv_RecordClaim)
  with inv show ?thesis
    by (auto simp: D' dist_inv_def update_conv')
qed

lemma dist_inv_Prune: "dist_inv D \<Longrightarrow> dist_inv (PruneOldPools c D cur)"
  unfolding dist_inv_def by (blast dest: map_of_PruneOldPools)

lemma orderly_inv:
  assumes "orderly c env D" "0 \<le> sint (MAX_UBI_PER_PERSON c)"
  shows "dist_inv D"
  using assms
proof (induction rule: orderly.induct)
  case orderly_new
  show ?case by (simp add: dist_inv_def new_distributor_def)
next
  case (orderly_reward D amt height)
  then show ?case by (intro dist_inv_AddBlockReward) simp_all
next
  case (orderly_finalize D e identityCount D')
  then show ?case by (intro dist_inv_FinalizeEpoch [of D e c identityCount D']) simp_all
next
  case (orderly_claim D claim root h)
  then show ?case by (intro dist_inv_ProcessClaim) simp
next
  case (orderly_prune D cur)
  then show ?case by (intro dist_inv_Prune) simp
qed

lemma of_nat_small_32:
  assumes "n < 2 ^ 32"
  shows "unat (word_of_nat n :: 32 word) = n" "ucast (word_of_nat n :: 32 word) = (word_of_nat n :: 64 word)"
proof -
  show 1: "unat (word_of_nat n :: 32 word) = n"
    using assms by (simp add: unat_of_nat)
  have "ucast (word_of_nat n :: 32 word) = (word_of_nat (unat (word_of_nat n :: 32 word)) :: 64 word)"
    by simp
  thus "ucast (word_of_nat n :: 32 word) = (word_of_nat n :: 64 word)"
    by (simp only: 1)
qed

lemma sint_of_nat_64:
  assumes "n < 2 ^ 32"
  shows "sint (word_of_nat n :: 64 word) = int n"
proof -
  have "sint (word_of_int (int n) :: 64 word) = signed_take_bit 63 (int n)"
    by (simp only: signed_of_int) simp
  also have "\<dots> = int n"
    by (rule signed_take_bit_int_eq_self) (use assms in simp_all)
  finally show ?thesis by simp
qed

lemma conservation_from_inv:
  assumes inv: "pool_inv pool" and fin: "isFinalized pool"
      and len: "length (usedNullifiers pool) < 2 ^ 32"
  shows "amountClaimed pool = ucast (claimCount pool) * amountPerPerson pool"
    and "unat (claimCount pool) \<le> unat (eligibleCount pool) \<Longrightarrow>
         sint (amountClaimed pool) = int (unat (claimCount pool)) * sint (amountPerPerson pool) \<and>
         sint (amountClaimed pool) \<le> sint (totalPool pool)"
proof -
  let ?N = "length (usedNullifiers pool)"
  have cc: "claimCount pool = word_of_nat ?N"
    using inv by (simp add: pool_inv_def)
  have ac: "amountClaimed pool = word_of_nat ?N * amountPerPerson pool"
    using inv by (simp add: pool_inv_def)
  have un: "unat (claimCount pool) = ?N"
    unfolding cc using len by (rule of_nat_small_32)
  have uc: "ucast (claimCount pool) = (word_of_nat ?N :: 64 word)"
    unfolding cc using len by (rule of_nat_small_32)
  show "amountClaimed pool = ucast (claimCount pool) * amountPerPerson pool"
    by (simp only: ac uc)
  assume le: "unat (claimCount pool) \<le> unat (eligibleCount pool)"
  have app: "0 \<le> sint (amountPerPerson pool)"
    and fit: "uint (eligibleCount pool) * sint (amountPerPerson pool) \<le> sint (totalPool pool)"
    using inv fin by (simp_all add: pool_inv_def)
  have "int ?N \<le> uint (eligibleCount pool)"
    using le un uint_nat [of "eligibleCount pool"] by linarith
  hence "int ?N * sint (amountPerPerson pool) \<le> uint (eligibleCount pool) * sint (amountPerPerson pool)"
    using app by (rule mult_right_mono)
  with fit have ub: "int ?N * sint (amountPerPerson pool) \<le> sint (totalPool pool)"
    by linarith
  have lb: "0 \<le> int ?N * sint (amountPerPerson pool)"
    using app by simp
  have "sint (totalPool pool) < 2 ^ 63"
    using sint_lt [of "totalPool pool"] by simp
  with ub have ub': "int ?N * sint (amountPerPerson pool) < 2 ^ 63"
    by linarith
  have "sint (amountClaimed pool) = signed_take_bit 63 (sint (word_of_nat ?N :: 64 word) * sint (amountPerPerson pool))"
    unfolding ac by (simp add: sint_word_ariths)
  also have "\<dots> = signed_take_bit 63 (int ?N * sint (amountPerPerson pool))"
    using len by (simp only: sint_of_nat_64)
  also have "\<dots> = int ?N * sint (amountPerPerson pool)"
    by (rule signed_take_bit_int_eq_self) (use lb ub' in simp_all)
  finally have eq: "sint (amountClaimed pool) = int ?N * sint (amountPerPerson pool)" .
  with ub un show "sint (amountClaimed pool) = int (unat (claimCount pool)) * sint (amountPerPerson pool) \<and>
         sint (amountClaimed pool) \<le> sint (totalPool pool)"
    by simp
qed

lemma orderly_reachable: "orderly c env D \<Longrightarrow> reachable c env D"
  by (induction rule: orderly.induct) (auto intro: reachable.intros)

lemma orderly_funded: "orderly test_consts test_env funded"
  unfolding funded_def
  by (rule orderly_reward [OF orderly_new]) (simp_all add: pool_total_def new_distributor_def)

lemma orderly_finalized10: "orderly test_consts test_env finalized10"
proof (rule orderly_finalize [OF orderly_funded])
  show "\<not> epoch_finalized funded 0"
    by (simp add: epoch_finalized_def funded_eq default_pool_def)
  show "FinalizeEpoch test_consts funded 0 10 = Some finalized10"
    by (simp add: finalized10_Some finalized10_eq)
qed

lemma orderly_claimed1: "orderly test_consts test_env claimed1"
  unfolding claimed1_def
  by (rule orderly_claim [OF orderly_finalized10]) (simp add: claim_a_def)

lemma orderly_claim_many:
  "orderly test_consts test_env D \<Longrightarrow> orderly test_consts test_env (claim_many k D)"
  by (induction k) (auto intro: orderly_claim simp: claim_k_def)

lemma orderly_overclaimed: "orderly test_consts test_env overclaimed"
  unfolding overclaimed_def by (rule orderly_claim_many [OF orderly_finalized10])

lemma refinalized_Some:
  "FinalizeEpoch test_consts claimed1 0 20 =
     Some \<lparr> pools = [(0, default_pool \<lparr> epoch := 0, endHeight := 1439, claimDeadline := 14399,
                                  totalPool := 100, eligibleCount := 20, amountPerPerson := 5,
                                  amountClaimed := 10, claimCount := 1, isFinalized := True,
                                  usedNullifiers := [claimNullifier claim_a] \<rparr>)],
       currentEpoch = 0, totalDistributed = 10, totalClaims = 1 \<rparr>"
  by (simp add: claimed1_eq FinalizeEpoch_def Finalize_def test_consts_def
        default_pool_def Let_def signed_divide_int_def)

lemma refinalized_eq:
  "refinalized =
     \<lparr> pools = [(0, default_pool \<lparr> epoch := 0, endHeight := 1439, claimDeadline := 14399,
                                  totalPool := 100, eligibleCount := 20, amountPerPerson := 5,
                                  amountClaimed := 10, claimCount := 1, isFinalized := True,
                                  usedNullifiers := [claimNullifier claim_a] \<rparr>)],
       currentEpoch = 0, totalDistributed = 10, totalClaims = 1 \<rparr>"
  by (simp add: refinalized_def refinalized_Some)

lemma reachable_refinalized: "reachable test_consts test_env refinalized"
proof (rule reachable_finalize)
  show "reachable test_consts test_env claimed1"
    by (rule orderly_reachable [OF orderly_claimed1])
  show "FinalizeEpoch test_consts claimed1 0 20 = Some refinalized"
    by (simp add: refinalized_Some refinalized_eq)
qed

lemma overclaimed_pool:
  "map_of (pools overclaimed) 0 = Some (snd (hd (pools overclaimed)))"
  "isFinalized (snd (hd (pools overclaimed)))"
  "amountClaimed (snd (hd (pools overclaimed))) = 110"
  "totalPool (snd (hd (pools overclaimed))) = 100"
  "claimCount (snd (hd (pools overclaimed))) = 11"
  "eligibleCount (snd (hd (pools overclaimed))) = 10"
  by code_simp+

text \<open>
  Claim C3, as stated, fails in two ways. Finalizing an epoch a second time, after a
  claim was paid, changes the allotment: the pool then has \<open>amountClaimed = 10\<close> and
  \<open>claimCount = 1\<close> with \<open>amountPerPerson = 5\<close>. And nothing bounds the number of valid
  claims by the number of eligible identities: eleven claims with distinct nullifiers on a
  pool of 100 finalized with 10 identities pay out 110.
\<close>

theorem pool_conservation_counterexample:
  "reachable test_consts test_env refinalized \<and>
   map_of (pools refinalized) 0 = Some (snd (hd (pools refinalized))) \<and>
   isFinalized (snd (hd (pools refinalized))) \<and>
   amountClaimed (snd (hd (pools refinalized))) = 10 \<and>
   claimCount (snd (hd (pools refinalized))) = 1 \<and>
   amountPerPerson (snd (hd (pools refinalized))) = 5 \<and>
   amountClaimed (snd (hd (pools refinalized)))
     \<noteq> ucast (claimCount (snd (hd (pools refinalized))))
         * amountPerPerson (snd (hd (pools refinalized))) \<and>
   reachable test_consts test_env overclaimed \<and>
   orderly test_consts test_env overclaimed \<and>
   map_of (pools overclaimed) 0 = Some (snd (hd (pools overclaimed))) \<and>
   isFinalized (snd (hd (pools overclaimed))) \<and>
   sint (totalPool (snd (hd (pools overclaimed)))) = 100 \<and>
   sint (amountClaimed (snd (hd (pools overclaimed)))) = 110"
  using reachable_refinalized orderly_overclaimed orderly_reachable [OF orderly_overclaimed]
  by (simp add: overclaimed_pool) (simp add: refinalized_eq default_pool_def)

text \<open>
  Claim C3, amended. In every state of an orderly run (from a new distributor by
  \<^verbatim>\<open>AddBlockReward\<close> with non-negative amounts that do not overflow the pool,
  \<^verbatim>\<open>FinalizeEpoch\<close> on epochs not yet finalized, \<^verbatim>\<open>ProcessClaim\<close> and
  \<^verbatim>\<open>PruneOldPools\<close>), with \<^verbatim>\<open>MAX_UBI_PER_PERSON\<close> not negative, every finalized pool
  with fewer than 2^32 recorded nullifiers satisfies
  \<open>amountClaimed = claimCount * amountPerPerson\<close> in 64-bit arithmetic; and whenever its
  \<open>claimCount\<close> is at most its \<open>eligibleCount\<close>, the equation holds over the integers and
  \<open>amountClaimed \<le> totalPool\<close>.
\<close>

theorem pool_conservation:
  assumes run: "orderly c env D"
      and max: "0 \<le> sint (MAX_UBI_PER_PERSON c)"
      and pool: "map_of (pools D) e = Some pool"
      and fin: "isFinalized pool"
      and len: "length (usedNullifiers pool) < 2 ^ 32"
  shows "amountClaimed pool = ucast (claimCount pool) * amountPerPerson pool \<and>
         (unat (claimCount pool) \<le> unat (eligibleCount pool) \<longrightarrow>
            sint (amountClaimed pool) = int (unat (claimCount pool)) * sint (amountPerPerson pool) \<and>
            sint (amountClaimed pool) \<le> sint (totalPool pool))"
proof -
  have "dist_inv D"
    using run max by (rule orderly_inv)
  with pool have inv: "pool_inv pool"
    by (simp add: dist_inv_def)
  from conservation_from_inv [OF inv fin len] show ?thesis
    by blast
qed

text \<open>
  Witness for C3: the distributor after a reward of 100, the finalization of epoch 0 with
  10 identities and one valid claim.
\<close>

theorem pool_conservation_witness:
  "orderly test_consts test_env claimed1 \<and>
   0 \<le> sint (MAX_UBI_PER_PERSON test_consts) \<and>
   map_of (pools claimed1) 0 = Some (snd (hd (pools claimed1))) \<and>
   isFinalized (snd (hd (pools claimed1))) \<and>
   length (usedNullifiers (snd (hd (pools claimed1)))) < 2 ^ 32 \<and>
   unat (claimCount (snd (hd (pools claimed1)))) \<le> unat (eligibleCount (snd (hd (pools claimed1)))) \<and>
   amountClaimed (snd (hd (pools claimed1)))
     = ucast (claimCount (snd (hd (pools claimed1)))) * amountPerPerson (snd (hd (pools claimed1))) \<and>
   sint (amountClaimed (snd (hd (pools claimed1))))
     = int (unat (claimCount (snd (hd (pools claimed1)))))
         * sint (amountPerPerson (snd (hd (pools claimed1)))) \<and>
   sint (amountClaimed (snd (hd (pools claimed1)))) \<le> sint (totalPool (snd (hd (pools claimed1))))"
proof -
  let ?P = "snd (hd (pools claimed1))"
  have 1: "orderly test_consts test_env claimed1"
    by (rule orderly_claimed1)
  have 2: "0 \<le> sint (MAX_UBI_PER_PERSON test_consts)"
    by (simp add: test_consts_def)
  have 3: "map_of (pools claimed1) 0 = Some ?P"
    by (simp add: claimed1_eq)
  have 4: "isFinalized ?P"
    by (simp add: claimed1_eq default_pool_def)
  have 5: "length (usedNullifiers ?P) < 2 ^ 32"
    by (simp add: claimed1_eq default_pool_def)
  have 6: "unat (claimCount ?P) \<le> unat (eligibleCount ?P)"
    by (simp add: claimed1_eq default_pool_def)
  from pool_conservation [OF 1 2 3 4 5] 6 1 2 3 4 5 show ?thesis
    by blast
qed

section \<open>Bytes of a word\<close>

lemma bit_255_int [simp]: "bit (255 :: int) n \<longleftrightarrow> n < 8"
proof -
  have eq: "(255 :: int) = mask 8"
    by (simp add: mask_eq_exp_minus_1)
  show ?thesis
    unfolding eq bit_mask_iff by simp
qed

lemma bit_byte_at:
  "bit (byte_at (x :: 'a::len word) i) n \<longleftrightarrow> n < 8 \<and> bit x (i * 8 + n)"
  by (auto simp: byte_at_def bit_simps dest: bit_imp_le_length)

lemma bit_sbyte_at:
  "i * 8 + 8 \<le> LENGTH('a) \<Longrightarrow> bit (sbyte_at (x :: 'a::len word) i) n \<longleftrightarrow> n < 8 \<and> bit x (i * 8 + n)"
  by (auto simp: sbyte_at_def bit_simps dest: bit_imp_le_length)

lemma bit_or_bytes:
  "bit (or_bytes i bs (x :: 'a::len word)) n \<longleftrightarrow>
     bit x n \<or> (n < LENGTH('a) \<and> i * 8 \<le> n \<and> n div 8 - i < length bs \<and>
                 bit (bs ! (n div 8 - i)) (n mod 8))"
proof (induction bs arbitrary: i x)
  case Nil
  show ?case by simp
next
  case (Cons b bs)
  have here: "i * 8 \<le> n \<and> n - i * 8 < 8 \<longleftrightarrow> n div 8 = i"
    by auto
  have at: "n div 8 = i \<Longrightarrow> n - i * 8 = n mod 8"
    by (auto simp: mod_eq_dvd_iff_nat minus_mult_div_eq_mod [symmetric] algebra_simps)
  have later: "Suc i * 8 \<le> n \<longleftrightarrow> i * 8 \<le> n \<and> n div 8 \<noteq> i"
    by auto
  have idx: "Suc i * 8 \<le> n \<Longrightarrow> n div 8 - i = Suc (n div 8 - Suc i)"
    by auto
  show ?case
    apply (simp only: or_bytes.simps Cons.IH bit_or_iff bit_push_bit_iff bit_ucast_iff)
    apply (cases "n div 8 = i")
    subgoal
      using at by (auto simp: bit_simps dest: bit_imp_le_length)
    subgoal
      using idx later here by (auto simp: bit_simps nth_Cons split: nat.splits dest: bit_imp_le_length)
    done
qed

lemma or_bytes_byte_at:
  assumes "LENGTH('a) \<le> k * 8"
  shows "or_bytes 0 (map (byte_at w) [0..<k]) 0 = (w :: 'a::len word)"
proof (rule bit_word_eqI)
  fix n assume n: "n < LENGTH('a)"
  hence "n div 8 < k"
    using assms by auto
  moreover have "n div 8 * 8 + n mod 8 = n"
    by simp
  ultimately show "bit (or_bytes 0 (map (byte_at w) [0..<k]) (0 :: 'a word)) n \<longleftrightarrow> bit w n"
    using n by (simp add: bit_or_bytes bit_byte_at)
qed

lemma or_bytes_sbyte_at:
  assumes "LENGTH('a) = k * 8"
  shows "or_bytes 0 (map (sbyte_at w) [0..<k]) 0 = (w :: 'a::len word)"
proof (rule bit_word_eqI)
  fix n assume n: "n < LENGTH('a)"
  hence d: "n div 8 < k"
    using assms by auto
  hence "n div 8 * 8 + 8 \<le> LENGTH('a)"
    using assms by auto
  hence "bit (sbyte_at w (n div 8)) (n mod 8) \<longleftrightarrow> n mod 8 < 8 \<and> bit w (n div 8 * 8 + n mod 8)"
    by (rule bit_sbyte_at)
  moreover have "n div 8 * 8 + n mod 8 = n"
    by simp
  ultimately show "bit (or_bytes 0 (map (sbyte_at w) [0..<k]) (0 :: 'a word)) n \<longleftrightarrow> bit w n"
    using n d by (simp add: bit_or_bytes)
qed

lemma get_put [simp]:
  "get_64 (put_u64 w @ rest) = w"
  "get_64 (put_i64 w @ rest) = w"
  "get_32 (put_u32 v @ rest) = v"
  "get_32 (put_i32 v @ rest) = v"
  by (simp_all add: get_64_def get_32_def put_u64_def put_i64_def put_u32_def put_i32_def
        or_bytes_byte_at or_bytes_sbyte_at)

lemma put_length [simp]:
  "length (put_u64 w) = 8" "length (put_i64 w) = 8"
  "length (put_u32 v) = 4" "length (put_i32 v) = 4"
  by (simp_all add: put_u64_def put_i64_def put_u32_def put_i32_def)

section \<open>Round trip of the persistent form\<close>

lemma read_nullifiers_roundtrip:
  assumes "distinct (acc @ ns)"
      and "list_all (\<lambda>n. length (nullifierHash n) = 32 \<and> nullifierEpoch n = e) ns"
  shows "read_nullifiers (length ns) (concat (map nullifierHash ns) @ rest) e acc = acc @ ns"
  using assms
proof (induction ns arbitrary: acc)
  case Nil
  show ?case by simp
next
  case (Cons n ns)
  have n: "\<lparr> nullifierHash = nullifierHash n, nullifierEpoch = e \<rparr> = n"
    using Cons.prems(2) by simp
  have "n \<notin> set acc"
    using Cons.prems(1) by auto
  hence ins: "set_insert n acc = acc @ [n]"
    by (simp add: set_insert_def)
  have d: "distinct ((acc @ [n]) @ ns)"
    using Cons.prems(1) by simp
  have l: "list_all (\<lambda>n. length (nullifierHash n) = 32 \<and> nullifierEpoch n = e) ns"
    using Cons.prems(2) by simp
  have len: "length (nullifierHash n) = 32"
    using Cons.prems(2) by simp
  show ?case
    using Cons.IH [OF d l] len by (simp add: n ins)
qed

lemma length_concat_hashes:
  "list_all (\<lambda>n. length (nullifierHash n) = 32 \<and> P n) ns \<Longrightarrow>
   length (concat (map nullifierHash ns)) = length ns * 32"
  by (induction ns) auto


lemma unat_of_nat_32: "n < 2 ^ 32 \<Longrightarrow> unat (word_of_nat n :: 32 word) = n"
  by (simp add: unat_of_nat)

lemma read_pool_roundtrip:
  assumes wf: "pool_wf e p"
      and cap: "length (usedNullifiers p) \<le> 1000000"
      and ep: "list_all (\<lambda>n. nullifierEpoch n = e) (usedNullifiers p)"
  shows "read_pool (serialize_pool (e, p) @ rest) = Some (e, p, rest)"
proof -
  let ?ns = "usedNullifiers p"
  let ?H = "concat (map nullifierHash ?ns)"
  let ?c = "word_of_nat (length ?ns) :: 32 word"
  have both: "list_all (\<lambda>n. length (nullifierHash n) = 32 \<and> nullifierEpoch n = e) ?ns"
    using wf ep by (simp add: pool_wf_def list_all_iff)
  have un: "unat ?c = length ?ns"
    using cap by (intro unat_of_nat_32) simp
  have le: "\<not> ?c > 1000000"
    using cap un by (simp add: word_less_nat_alt)
  have lenH: "length ?H = length ?ns * 32"
    using both by (rule length_concat_hashes)
  have rd: "read_nullifiers (length ?ns) (?H @ rest) e [] = ?ns"
    using read_nullifiers_roundtrip [of "[]" ?ns e rest] wf both by (simp add: pool_wf_def)
  have fin: "((if isFinalized p then 1 else 0 :: byte) \<noteq> 0) = isFinalized p"
    by simp
  have rec: "default_pool \<lparr> epoch := e, endHeight := endHeight p, claimDeadline := claimDeadline p,
                    totalPool := totalPool p, eligibleCount := eligibleCount p,
                    amountPerPerson := amountPerPerson p, amountClaimed := amountClaimed p,
                    claimCount := claimCount p, isFinalized := isFinalized p,
                    usedNullifiers := ?ns \<rparr> = p"
    using wf by (cases p) (simp add: default_pool_def pool_wf_def)
  show ?thesis
    unfolding read_pool_def serialize_pool_def
    using rec by (auto simp add: Let_def nth_append un le lenH rd simp del: One_nat_def)
qed


lemma update_fresh:
  "k \<notin> fst ` set al \<Longrightarrow> AList.update k v al = al @ [(k, v)]"
  by (induction al) auto

lemma read_pools_roundtrip:
  assumes "distinct (map fst (acc @ ps))"
      and "list_all (\<lambda>(e, p). pool_wf e p \<and> length (usedNullifiers p) \<le> 1000000 \<and>
                       list_all (\<lambda>n. nullifierEpoch n = e) (usedNullifiers p)) ps"
  shows "read_pools (length ps) (concat (map serialize_pool ps) @ rest) acc = (True, acc @ ps)"
  using assms
proof (induction ps arbitrary: acc)
  case Nil
  show ?case by simp
next
  case (Cons ep ps)
  obtain e p where ep: "ep = (e, p)"
    by (cases ep)
  have rp: "read_pool (serialize_pool (e, p) @ concat (map serialize_pool ps) @ rest)
              = Some (e, p, concat (map serialize_pool ps) @ rest)"
    using Cons.prems(2) by (intro read_pool_roundtrip) (simp_all add: ep)
  have "e \<notin> fst ` set acc"
    using Cons.prems(1) by (auto simp: ep)
  hence up: "AList.update e p acc = acc @ [(e, p)]"
    by (rule update_fresh)
  have d: "distinct (map fst ((acc @ [(e, p)]) @ ps))"
    using Cons.prems(1) by (simp add: ep)
  have l: "list_all (\<lambda>(e, p). pool_wf e p \<and> length (usedNullifiers p) \<le> 1000000 \<and>
                       list_all (\<lambda>n. nullifierEpoch n = e) (usedNullifiers p)) ps"
    using Cons.prems(2) by simp
  show ?case
    using Cons.IH [OF d l] by (simp add: ep rp up)
qed

lemma Serialize_header:
  "length (Serialize D) \<ge> 13"
  "Serialize D ! 0 = 0x01"
  "get_64 (drop 1 (Serialize D)) = currentEpoch D"
  "get_32 (drop 9 (Serialize D)) = word_of_nat (length (pools D))"
  "drop 13 (Serialize D) = concat (map serialize_pool (pools D))"
  by (simp_all add: Serialize_def)

lemma Deserialize_Serialize:
  assumes wf: "dist_wf D" and caps: "within_caps D" and ep: "nullifiers_in_epoch D"
  shows "Deserialize D0 (Serialize D) = (True, D0 \<lparr> currentEpoch := currentEpoch D, pools := pools D \<rparr>)"
proof -
  let ?c = "word_of_nat (length (pools D)) :: 32 word"
  have len: "length (pools D) \<le> 10000"
    using caps by (simp add: within_caps_def)
  have un: "unat ?c = length (pools D)"
    using len by (intro unat_of_nat_32) simp
  have le: "\<not> ?c > 10000"
    using len un by (simp add: word_less_nat_alt)
  have all: "list_all (\<lambda>(e, p). pool_wf e p \<and> length (usedNullifiers p) \<le> 1000000 \<and>
                       list_all (\<lambda>n. nullifierEpoch n = e) (usedNullifiers p)) (pools D)"
    using wf caps ep
    by (auto simp: dist_wf_def within_caps_def nullifiers_in_epoch_def list_all_iff)
  have d: "distinct (map fst ([] @ pools D))"
    using wf by (simp add: dist_wf_def)
  have rp: "read_pools (length (pools D)) (concat (map serialize_pool (pools D))) [] = (True, pools D)"
    using read_pools_roundtrip [OF d all, of "[]"] by simp
  have ge: "\<not> length (Serialize D) < 13"
    using Serialize_header(1) [of D] by simp
  show ?thesis
    unfolding Deserialize_def
    by (simp only: ge Serialize_header(2-5) le un rp Let_def if_False simp_thms split)
qed

lemma distinct_set_insert: "distinct xs \<Longrightarrow> distinct (set_insert x xs)"
  by (simp add: set_insert_def)

lemma list_all_set_insert: "list_all P xs \<Longrightarrow> P x \<Longrightarrow> list_all P (set_insert x xs)"
  by (simp add: set_insert_def)

lemma read_nullifiers_wf:
  assumes "distinct acc" "list_all (\<lambda>n. length (nullifierHash n) = 32) acc" "k * 32 \<le> length bs"
  shows "distinct (read_nullifiers k bs e acc) \<and>
         list_all (\<lambda>n. length (nullifierHash n) = 32) (read_nullifiers k bs e acc)"
  using assms
proof (induction k arbitrary: bs acc)
  case 0
  then show ?case by simp
next
  case (Suc k)
  let ?n = "\<lparr> nullifierHash = take 32 bs, nullifierEpoch = e \<rparr>"
  have 1: "distinct (set_insert ?n acc)"
    using Suc.prems(1) by (rule distinct_set_insert)
  have "length (nullifierHash ?n) = 32"
    using Suc.prems(3) by simp
  hence 2: "list_all (\<lambda>n. length (nullifierHash n) = 32) (set_insert ?n acc)"
    using Suc.prems(2) by (intro list_all_set_insert)
  have 3: "k * 32 \<le> length (drop 32 bs)"
    using Suc.prems(3) by simp
  show ?case
    using Suc.IH [OF 1 2 3] by simp
qed

lemma read_pool_wf:
  assumes "read_pool bs = Some (e, p, rest)"
  shows "pool_wf e p"
proof -
  let ?k = "unat (get_32 (drop 49 bs))"
  from assms have k: "?k * 32 \<le> length (drop 53 bs)"
    and p: "usedNullifiers p = read_nullifiers ?k (drop 53 bs) e []" and ep: "epoch p = e"
    by (auto simp: read_pool_def Let_def not_less split: if_splits)
  have "distinct (read_nullifiers ?k (drop 53 bs) e []) \<and>
        list_all (\<lambda>n. length (nullifierHash n) = 32) (read_nullifiers ?k (drop 53 bs) e [])"
    by (rule read_nullifiers_wf) (use k in simp_all)
  with p ep show ?thesis
    by (simp add: pool_wf_def)
qed

lemma list_all_update:
  "list_all Q al \<Longrightarrow> Q (k, v) \<Longrightarrow> list_all Q (AList.update k v al)"
  by (induction al) auto

lemma pools_wf_update:
  assumes "distinct (map fst al)" "list_all (\<lambda>(e, pool). pool_wf e pool) al" "pool_wf e p"
  shows "distinct (map fst (AList.update e p al)) \<and>
         list_all (\<lambda>(e, pool). pool_wf e pool) (AList.update e p al)"
  using assms by (simp add: distinct_update list_all_update)

lemma read_pools_wf:
  assumes "distinct (map fst acc)" "list_all (\<lambda>(e, pool). pool_wf e pool) acc"
  shows "distinct (map fst (snd (read_pools n bs acc))) \<and>
         list_all (\<lambda>(e, pool). pool_wf e pool) (snd (read_pools n bs acc))"
  using assms
proof (induction n arbitrary: bs acc)
  case 0
  then show ?case by simp
next
  case (Suc n)
  show ?case
  proof (cases "read_pool bs")
    case None
    with Suc.prems show ?thesis by simp
  next
    case (Some r)
    obtain e p rest where r: "r = (e, p, rest)"
      by (cases r)
    have "pool_wf e p"
      using Some r by (intro read_pool_wf) simp
    hence "distinct (map fst (AList.update e p acc)) \<and>
           list_all (\<lambda>(e, pool). pool_wf e pool) (AList.update e p acc)"
      using Suc.prems by (intro pools_wf_update)
    hence "distinct (map fst (snd (read_pools n rest (AList.update e p acc)))) \<and>
           list_all (\<lambda>(e, pool). pool_wf e pool) (snd (read_pools n rest (AList.update e p acc)))"
      by (intro Suc.IH) simp_all
    with Some r show ?thesis by simp
  qed
qed

lemma dist_wf_Deserialize:
  assumes "dist_wf D"
  shows "dist_wf (snd (Deserialize D data))"
proof -
  let ?n = "unat (get_32 (drop 9 data))"
  obtain ok ps where rp: "read_pools ?n (drop 13 data) [] = (ok, ps)"
    by (cases "read_pools ?n (drop 13 data) []")
  have "distinct (map fst (snd (read_pools ?n (drop 13 data) []))) \<and>
        list_all (\<lambda>(e, pool). pool_wf e pool) (snd (read_pools ?n (drop 13 data) []))"
    by (rule read_pools_wf) simp_all
  hence "distinct (map fst ps) \<and> list_all (\<lambda>(e, pool). pool_wf e pool) ps"
    by (simp add: rp)
  with assms show ?thesis
    by (simp add: Deserialize_def dist_wf_def Let_def rp)
qed

lemma dist_wf_update:
  assumes "dist_wf D" "pool_wf e p"
  shows "dist_wf (D \<lparr> pools := AList.update e p (pools D) \<rparr>)"
  using pools_wf_update [of "pools D" e p] assms by (simp add: dist_wf_def)

lemma dist_wf_lookup:
  assumes "dist_wf D" "map_of (pools D) e = Some p"
  shows "pool_wf e p"
proof -
  from assms(2) have "(e, p) \<in> set (pools D)"
    by (rule map_of_SomeD)
  with assms(1) show ?thesis
    by (auto simp: dist_wf_def list_all_iff)
qed

lemma dist_wf_fields [simp]:
  "dist_wf (D \<lparr> currentEpoch := a \<rparr>) = dist_wf D"
  "dist_wf (D \<lparr> totalDistributed := b \<rparr>) = dist_wf D"
  "dist_wf (D \<lparr> totalClaims := t \<rparr>) = dist_wf D"
  by (simp_all add: dist_wf_def)

lemma dist_wf_AddBlockReward:
  assumes "dist_wf D"
  shows "dist_wf (AddBlockReward c D height amt)"
proof (cases "map_of (pools D) (HeightToEpoch c height)")
  case None
  let ?e = "HeightToEpoch c height"
  let ?p = "default_pool \<lparr> epoch := ?e, endHeight := EpochEndHeight c ?e \<rparr>"
  have 1: "pool_wf ?e ?p"
    by (simp add: pool_wf_def default_pool_def)
  have 2: "pool_wf ?e (?p \<lparr> totalPool := totalPool ?p + amt \<rparr>)"
    by (simp add: pool_wf_def default_pool_def)
  have "dist_wf (D \<lparr> currentEpoch := ?e, pools := AList.update ?e ?p (pools D) \<rparr>)"
    using dist_wf_update [OF assms 1] by (simp add: dist_wf_def)
  from dist_wf_update [OF this 2] None show ?thesis
    by (simp add: AddBlockReward_def GetOrCreatePool_def Let_def)
next
  case (Some p)
  let ?e = "HeightToEpoch c height"
  have "pool_wf ?e p"
    using assms Some by (rule dist_wf_lookup)
  hence 2: "pool_wf ?e (p \<lparr> totalPool := totalPool p + amt \<rparr>)"
    by (simp add: pool_wf_def)
  have "dist_wf (D \<lparr> currentEpoch := ?e \<rparr>)"
    using assms by simp
  from dist_wf_update [OF this 2] Some show ?thesis
    by (simp add: AddBlockReward_def GetOrCreatePool_def Let_def)
qed

lemma pool_wf_Finalize:
  "Finalize c p n = Some p' \<Longrightarrow> pool_wf e p \<Longrightarrow> pool_wf e p'"
  by (auto simp: Finalize_def Let_def pool_wf_def split: if_splits)

lemma dist_wf_FinalizeEpoch:
  assumes "dist_wf D" "FinalizeEpoch c D e n = Some D'"
  shows "dist_wf D'"
proof (cases "map_of (pools D) e")
  case None
  with assms show ?thesis by (simp add: FinalizeEpoch_def)
next
  case (Some p)
  let ?p2 = "p \<lparr> endHeight := EpochEndHeight c e,
                 claimDeadline := EpochEndHeight c e + UBI_CLAIM_WINDOW c + UBI_GRACE_EPOCHS c * EPOCH_BLOCKS c \<rparr>"
  from assms(2) Some obtain p3 where p3: "Finalize c ?p2 n = Some p3"
    and D': "D' = D \<lparr> pools := AList.update e p3 (pools D) \<rparr>"
    by (auto simp: FinalizeEpoch_def Let_def)
  have "pool_wf e p"
    using assms(1) Some by (rule dist_wf_lookup)
  hence "pool_wf e ?p2"
    by (simp add: pool_wf_def)
  with p3 have "pool_wf e p3"
    by (rule pool_wf_Finalize)
  with assms(1) show ?thesis
    unfolding D' by (rule dist_wf_update)
qed

lemma dist_wf_ProcessClaim:
  assumes wf: "dist_wf D" and len: "length (nullifierHash (claimNullifier claim)) = 32"
  shows "dist_wf (snd (snd (ProcessClaim env D claim root h)))"
proof (cases "fst (ProcessClaim env D claim root h) = Valid")
  case False
  hence "snd (snd (ProcessClaim env D claim root h)) = D"
    by (rule ProcessClaim_failure_keeps_state)
  with wf show ?thesis by simp
next
  case True
  then obtain p where p: "map_of (pools D) (claimEpoch claim) = Some p"
    and D': "snd (snd (ProcessClaim env D claim root h)) =
       D \<lparr> pools := AList.update (claimEpoch claim) (RecordClaim p (claimNullifier claim) (amountPerPerson p)) (pools D),
           totalDistributed := totalDistributed D + amountPerPerson p,
           totalClaims := totalClaims D + 1 \<rparr>"
    by (auto simp: ProcessClaim_def reject_def Let_def split: option.splits if_splits)
  have "pool_wf (claimEpoch claim) p"
    using wf p by (rule dist_wf_lookup)
  hence "pool_wf (claimEpoch claim) (RecordClaim p (claimNullifier claim) (amountPerPerson p))"
    using len by (simp add: pool_wf_def RecordClaim_def distinct_set_insert list_all_set_insert)
  with wf have "dist_wf (D \<lparr> pools := AList.update (claimEpoch claim)
                     (RecordClaim p (claimNullifier claim) (amountPerPerson p)) (pools D) \<rparr>)"
    by (rule dist_wf_update)
  thus ?thesis
    unfolding D' by (simp add: dist_wf_def)
qed

lemma dist_wf_Prune: "dist_wf D \<Longrightarrow> dist_wf (PruneOldPools c D cur)"
  by (simp add: dist_wf_def PruneOldPools_def Let_def distinct_map_filter list_all_iff)

lemma reachable_wf: "reachable c env D \<Longrightarrow> dist_wf D"
proof (induction rule: reachable.induct)
  case reachable_new
  show ?case by (simp add: dist_wf_def new_distributor_def)
next
  case (reachable_reward D height amt)
  then show ?case by (intro dist_wf_AddBlockReward)
next
  case (reachable_finalize D e identityCount D')
  then show ?case by (intro dist_wf_FinalizeEpoch [of D c e identityCount D'])
next
  case (reachable_claim D claim root h)
  then show ?case by (intro dist_wf_ProcessClaim)
next
  case (reachable_prune D cur)
  then show ?case by (intro dist_wf_Prune)
next
  case (reachable_load D data)
  then show ?case by (intro dist_wf_Deserialize)
qed

lemma keys_AddBlockReward:
  "map fst (pools (AddBlockReward c D height amt)) =
     (if HeightToEpoch c height \<in> set (map fst (pools D)) then map fst (pools D)
      else map fst (pools D) @ [HeightToEpoch c height])"
proof (cases "map_of (pools D) (HeightToEpoch c height)")
  case None
  hence "HeightToEpoch c height \<notin> fst ` set (pools D)"
    by (simp add: map_of_eq_None_iff)
  with None show ?thesis
    by (simp add: AddBlockReward_def GetOrCreatePool_def Let_def update_keys)
next
  case (Some p)
  hence "HeightToEpoch c height \<in> fst ` set (pools D)"
    by (metis map_of_eq_None_iff option.distinct(1))
  with Some show ?thesis
    by (simp add: AddBlockReward_def GetOrCreatePool_def Let_def update_keys)
qed

lemma unat_of_nat_64: "n < 2 ^ 64 \<Longrightarrow> unat (word_of_nat n :: 64 word) = n"
  by (simp add: unat_of_nat)

lemma epoch_of_height:
  assumes "n \<le> 20000"
  shows "HeightToEpoch test_consts (word_of_nat (n * 1440)) = word_of_nat n"
proof -
  have h: "HeightToEpoch test_consts x = word_of_int (sint x sdiv 1440)" for x
    by (simp add: test_consts_def)
  have "sint (word_of_int (int (n * 1440)) :: 32 word) = int (n * 1440)"
    by (rule sint_word_of_int_32) (use assms in simp_all)
  hence s: "sint (word_of_nat (n * 1440) :: 32 word) = int (n * 1440)"
    by (simp only: of_int_of_nat_eq)
  have d: "int (n * 1440) sdiv 1440 = int n"
    by (cases "n = 0") (simp_all add: signed_divide_int_def sgn_mult)
  show ?thesis
    by (simp only: h s d of_int_of_nat_eq)
qed

lemma word_of_nat_inj_64:
  assumes "word_of_nat a = (word_of_nat b :: 64 word)" "a \<le> 20000" "b \<le> 20000"
  shows "a = b"
proof -
  have a: "unat (word_of_nat a :: 64 word) = a"
    by (rule unat_of_nat_64) (use assms(2) in simp)
  have b: "unat (word_of_nat b :: 64 word) = b"
    by (rule unat_of_nat_64) (use assms(3) in simp)
  from assms(1) have "unat (word_of_nat a :: 64 word) = unat (word_of_nat b :: 64 word)"
    by (rule arg_cong)
  thus ?thesis
    by (simp only: a b)
qed

lemma keys_add_rewards:
  "n \<le> 20000 \<Longrightarrow> map fst (pools (add_rewards n)) = map word_of_nat [0..<n]"
proof (induction n)
  case 0
  show ?case by (simp add: new_distributor_def)
next
  case (Suc n)
  hence IH: "map fst (pools (add_rewards n)) = map word_of_nat [0..<n]"
    by simp
  have e: "HeightToEpoch test_consts (word_of_nat (n * 1440)) = word_of_nat n"
    using Suc.prems by (intro epoch_of_height) simp
  have "word_of_nat n \<notin> set (map word_of_nat [0..<n] :: 64 word list)"
  proof
    assume "word_of_nat n \<in> set (map word_of_nat [0..<n] :: 64 word list)"
    then obtain k where "k < n" "(word_of_nat n :: 64 word) = word_of_nat k"
      by auto
    with Suc.prems word_of_nat_inj_64 [of n k] show False
      by simp
  qed
  hence fresh: "word_of_nat n \<notin> set (map fst (pools (add_rewards n)))"
    unfolding IH .
  have "map fst (pools (add_rewards (Suc n))) = map fst (pools (add_rewards n)) @ [word_of_nat n]"
    by (simp only: add_rewards.simps keys_AddBlockReward e fresh if_False)
  thus ?case
    by (simp add: IH)
qed

lemma reachable_add_rewards: "reachable test_consts test_env (add_rewards n)"
  by (induction n) (auto intro: reachable.intros)

lemma too_many_pools:
  assumes "10000 < length (pools D)" "length (pools D) < 2 ^ 32"
  shows "fst (Deserialize D0 (Serialize D)) = False"
proof -
  let ?c = "word_of_nat (length (pools D)) :: 32 word"
  have un: "unat ?c = length (pools D)"
    using assms(2) by (rule unat_of_nat_32)
  have gt: "?c > 10000"
    using assms(1) un by (simp add: word_less_nat_alt)
  have ge: "\<not> length (Serialize D) < 13"
    using Serialize_header(1) [of D] by simp
  show ?thesis
    unfolding Deserialize_def
    by (simp only: ge Serialize_header(2-5) gt Let_def if_False if_True simp_thms fst_conv)
qed

lemma add_rewards_rejected:
  "fst (Deserialize new_distributor (Serialize (add_rewards 10001))) = False"
proof -
  have "length (map fst (pools (add_rewards 10001))) = 10001"
    by (simp add: keys_add_rewards)
  hence "length (pools (add_rewards 10001)) = 10001"
    by simp
  thus ?thesis
    by (intro too_many_pools) simp_all
qed

lemma reachable_finalized10: "reachable test_consts test_env finalized10"
  by (rule orderly_reachable [OF orderly_finalized10])

lemma reachable_mismatched: "reachable test_consts test_env mismatched"
  unfolding mismatched_def
  by (rule reachable_claim [OF reachable_finalized10]) (simp add: claim_other_epoch_def)

lemma mismatched_roundtrip:
  "fst (Deserialize new_distributor (Serialize mismatched)) = True"
  "usedNullifiers (snd (hd (pools (snd (Deserialize new_distributor (Serialize mismatched))))))
     = [\<lparr> nullifierHash = replicate 32 1, nullifierEpoch = 0 \<rparr>]"
  "usedNullifiers (snd (hd (pools mismatched)))
     = [\<lparr> nullifierHash = replicate 32 1, nullifierEpoch = 1 \<rparr>]"
  by code_simp+

text \<open>
  Claim C7, as stated, fails in two ways. A distributor with 10 001 pools is serialized,
  but \<^verbatim>\<open>Deserialize\<close> rejects its bytes at the cap of 10 000 pools. And
  \<^verbatim>\<open>Deserialize\<close> gives every nullifier the epoch of its pool, while
  \<^verbatim>\<open>ProcessClaim\<close> records the nullifier of the claim as it is: after a claim for
  epoch 0 whose nullifier names epoch 1, the round trip succeeds with a different set of
  used nullifiers.
\<close>

theorem distributor_roundtrip_counterexample:
  "reachable test_consts test_env (add_rewards 10001) \<and>
   fst (Deserialize new_distributor (Serialize (add_rewards 10001))) = False \<and>
   reachable test_consts test_env mismatched \<and>
   fst (Deserialize new_distributor (Serialize mismatched)) = True \<and>
   set (usedNullifiers (snd (hd (pools (snd (Deserialize new_distributor (Serialize mismatched)))))))
     \<noteq> set (usedNullifiers (snd (hd (pools mismatched))))"
  using reachable_add_rewards [of 10001] add_rewards_rejected reachable_mismatched
  by (simp add: mismatched_roundtrip)

text \<open>
  Claim C7, amended. For every reachable state \<open>D\<close> of the distributor with at most
  10 000 pools, at most 1 000 000 used nullifiers in each pool, and every used nullifier
  carrying the epoch of its pool, \<^verbatim>\<open>Deserialize\<close> of \<^verbatim>\<open>Serialize(D)\<close> (on any
  distributor) succeeds and yields the current epoch of \<open>D\<close> and the pools of \<open>D\<close>: the
  same epochs, and for each the same fields and the same used nullifiers.
\<close>

theorem distributor_roundtrip:
  assumes "reachable c env D" and "within_caps D" and "nullifiers_in_epoch D"
  shows "fst (Deserialize D0 (Serialize D)) = True \<and>
         currentEpoch (snd (Deserialize D0 (Serialize D))) = currentEpoch D \<and>
         pools (snd (Deserialize D0 (Serialize D))) = pools D"
proof -
  have "dist_wf D"
    using assms(1) by (rule reachable_wf)
  hence "Deserialize D0 (Serialize D)
           = (True, D0 \<lparr> currentEpoch := currentEpoch D, pools := pools D \<rparr>)"
    using assms(2,3) by (rule Deserialize_Serialize)
  thus ?thesis
    by simp
qed

text \<open>
  Witness for C7: the distributor after a reward, a finalization and one valid claim.
\<close>

theorem distributor_roundtrip_witness:
  "reachable test_consts test_env claimed1 \<and> within_caps claimed1 \<and> nullifiers_in_epoch claimed1 \<and>
   fst (Deserialize new_distributor (Serialize claimed1)) = True \<and>
   currentEpoch (snd (Deserialize new_distributor (Serialize claimed1))) = currentEpoch claimed1 \<and>
   pools (snd (Deserialize new_distributor (Serialize claimed1))) = pools claimed1"
proof -
  have 1: "reachable test_consts test_env claimed1"
    by (rule orderly_reachable [OF orderly_claimed1])
  have 2: "within_caps claimed1"
    by (simp add: within_caps_def claimed1_eq default_pool_def)
  have 3: "nullifiers_in_epoch claimed1"
    by (simp add: nullifiers_in_epoch_def claimed1_eq default_pool_def claim_a_def)
  from distributor_roundtrip [OF 1 2 3, of new_distributor] 1 2 3 show ?thesis
    by blast
qed

section \<open>Round trip of the compact form\<close>

lemma byte_at_or: "byte_at (x OR y) i = byte_at x i OR byte_at y i"
  by (rule bit_word_eqI) (simp add: bit_byte_at bit_or_iff conj_disj_distribL)

lemma byte_at_and: "byte_at (x AND y) i = byte_at x i AND byte_at y i"
  by (rule bit_word_eqI) (auto simp add: bit_byte_at bit_and_iff)

lemma byte_at_drop: "byte_at (drop_bit (k * 8) x) i = byte_at x (i + k)"
  by (rule bit_word_eqI) (simp add: bit_byte_at bit_drop_bit_eq algebra_simps)

lemma byte_at_push:
  "i < 4 \<Longrightarrow> byte_at (push_bit (k * 8) (x :: 32 word)) i = (if i < k then 0 else byte_at x (i - k))"
  by (rule bit_word_eqI) (auto simp add: bit_byte_at bit_push_bit_iff algebra_simps)

lemma byte_at_ucast:
  "byte_at (ucast (b :: byte) :: 32 word) i = (if i = 0 then b else 0)"
  by (rule bit_word_eqI) (auto simp add: bit_byte_at bit_ucast_iff dest: bit_imp_le_length)

lemma byte_at_beyond: "4 \<le> i \<Longrightarrow> byte_at (x :: 32 word) i = 0"
  by (rule bit_word_eqI) (auto simp add: bit_byte_at dest: bit_imp_le_length)

lemma word32_eqI:
  assumes "byte_at x 0 = byte_at y 0" "byte_at x 1 = byte_at y 1"
          "byte_at x 2 = byte_at y 2" "byte_at x 3 = byte_at y 3"
  shows "x = (y :: 32 word)"
proof -
  have "map (byte_at x) [0..<4] = map (byte_at y) [0..<4]"
    using assms by (simp add: upt_rec numeral_eq_Suc)
  hence "or_bytes 0 (map (byte_at x) [0..<4]) (0 :: 32 word) = or_bytes 0 (map (byte_at y) [0..<4]) 0"
    by (rule arg_cong)
  moreover have "or_bytes 0 (map (byte_at z) [0..<4]) 0 = z" for z :: "32 word"
    by (rule or_bytes_byte_at) simp
  ultimately show ?thesis
    by (simp only:)
qed


lemma byte_at_push8 [simp]:
  "i < 4 \<Longrightarrow> byte_at (push_bit 8 (x :: 32 word)) i = (if i < 1 then 0 else byte_at x (i - 1))"
  "i < 4 \<Longrightarrow> byte_at (push_bit 16 (x :: 32 word)) i = (if i < 2 then 0 else byte_at x (i - 2))"
  "i < 4 \<Longrightarrow> byte_at (push_bit 24 (x :: 32 word)) i = (if i < 3 then 0 else byte_at x (i - 3))"
  using byte_at_push [of i 1 x] byte_at_push [of i 2 x] byte_at_push [of i 3 x] by simp_all

lemma byte_at_drop8 [simp]:
  "byte_at (drop_bit 8 x) i = byte_at x (i + 1)"
  "byte_at (drop_bit 16 x) i = byte_at x (i + 2)"
  "byte_at (drop_bit 24 x) i = byte_at x (i + 3)"
  using byte_at_drop [of 1 x i] byte_at_drop [of 2 x i] byte_at_drop [of 3 x i] by simp_all

lemma ucast_and_ff:
  "ucast (w AND 0xFF) = byte_at w 0"
  "ucast (drop_bit 8 w AND 0xFF) = byte_at w 1"
  "ucast (drop_bit 16 w AND 0xFF) = byte_at w 2"
  by (simp_all add: byte_at_def)

lemma unat_and_ff: "unat (drop_bit 24 (w :: 32 word) AND 0xFF) = unat (byte_at w 3)"
proof -
  have "ucast (byte_at w 3) = drop_bit 24 w AND 0xFF"
    by (rule bit_word_eqI) (auto simp: bit_ucast_iff bit_byte_at bit_and_iff bit_drop_bit_eq ac_simps)
  hence "unat (drop_bit 24 w AND 0xFF) = unat (ucast (byte_at w 3) :: 32 word)"
    by simp
  also have "\<dots> = unat (byte_at w 3)"
  proof -
    have "unat (byte_at w 3) < 2 ^ 8"
      using unsigned_less [of "byte_at w 3"] by simp
    hence "unat (byte_at w 3) < 2 ^ 32"
      by simp
    thus ?thesis
      by (simp add: unsigned_ucast_eq take_bit_nat_eq_self)
  qed
  finally show ?thesis .
qed

lemma byte_at_numerals [simp]:
  "byte_at (0x007FFFFF :: 32 word) 0 = 0xFF"
  "byte_at (0x007FFFFF :: 32 word) 1 = 0xFF"
  "byte_at (0x007FFFFF :: 32 word) 2 = 0x7F"
  "byte_at (0x007FFFFF :: 32 word) 3 = 0"
  "byte_at (0x00800000 :: 32 word) 0 = 0"
  "byte_at (0x00800000 :: 32 word) 1 = 0"
  "byte_at (0x00800000 :: 32 word) 2 = 0x80"
  "byte_at (0x00800000 :: 32 word) 3 = 0"
  "byte_at (0 :: 32 word) i = 0"
  by (simp_all add: byte_at_def)

lemma byte_at_of_nat:
  assumes "s < 256"
  shows "byte_at (word_of_nat s :: 32 word) i = (if i = 0 then word_of_nat s else 0)"
proof -
  have "unat (word_of_nat s :: byte) = s"
    using assms by (simp add: unat_of_nat)
  hence "(word_of_nat s :: 32 word) = ucast (word_of_nat s :: byte)"
    by (metis of_nat_unat)
  thus ?thesis
    by (simp only: byte_at_ucast)
qed

lemma and_ff [simp]: "(b :: byte) AND 0xFF = b"
  by (rule bit_word_eqI) (simp add: bit_and_iff)

lemma word32_zero_iff:
  "(x :: 32 word) = 0 \<longleftrightarrow> byte_at x 0 = 0 \<and> byte_at x 1 = 0 \<and> byte_at x 2 = 0 \<and> byte_at x 3 = 0"
proof
  assume "x = 0"
  thus "byte_at x 0 = 0 \<and> byte_at x 1 = 0 \<and> byte_at x 2 = 0 \<and> byte_at x 3 = 0"
    by simp
next
  assume "byte_at x 0 = 0 \<and> byte_at x 1 = 0 \<and> byte_at x 2 = 0 \<and> byte_at x 3 = 0"
  thus "x = 0"
    by (intro word32_eqI) simp_all
qed

lemma byte_at_numerals_Suc [simp]:
  "byte_at (0x007FFFFF :: 32 word) (Suc 0) = 0xFF"
  "byte_at (0x00800000 :: 32 word) (Suc 0) = 0"
  by (simp_all add: byte_at_def)

lemma sign_test: "(x :: 32 word) AND 0x00800000 = 0 \<longleftrightarrow> byte_at x 2 AND 0x80 = 0"
  by (simp add: word32_zero_iff byte_at_and)

lemma mantissa_bytes:
  "byte_at ((x :: 32 word) AND 0x007FFFFF) 0 = byte_at x 0"
  "byte_at ((x :: 32 word) AND 0x007FFFFF) 1 = byte_at x 1"
  "byte_at ((x :: 32 word) AND 0x007FFFFF) 2 = byte_at x 2 AND 0x7F"
  "byte_at ((x :: 32 word) AND 0x007FFFFF) 3 = 0"
  by (simp_all add: byte_at_and)

lemma odd_div_128: "k < 256 \<Longrightarrow> odd ((k :: nat) div 128) \<longleftrightarrow> 128 \<le> k"
proof (cases "128 \<le> k")
  case False
  then show ?thesis by simp
next
  case True
  assume "k < 256"
  with True have "k div 128 = 1"
    by (intro div_nat_eqI) simp_all
  with True show ?thesis by simp
qed

lemma byte_bit7: "bit (a :: byte) 7 \<longleftrightarrow> 0x80 \<le> a"
proof -
  have lt: "unat a < 256"
    using unsigned_less [of a] by simp
  have "bit a 7 \<longleftrightarrow> bit (unat a) 7"
    by (simp add: bit_unsigned_iff)
  also have "\<dots> \<longleftrightarrow> odd (unat a div 2 ^ 7)"
    by (rule bit_iff_odd)
  also have "\<dots> \<longleftrightarrow> odd (unat a div 128)"
    by simp
  also have "\<dots> \<longleftrightarrow> 128 \<le> unat a"
    using lt by (rule odd_div_128)
  also have "\<dots> \<longleftrightarrow> 0x80 \<le> a"
    by (simp add: word_le_nat_alt)
  finally show ?thesis .
qed

lemma byte_high_bit:
  fixes a :: byte
  shows "a AND 0x80 = 0 \<longleftrightarrow> a < 0x80" and "a < 0x80 \<Longrightarrow> a AND 0x7F = a"
proof -
  have m: "(0x7F :: byte) = mask 7" and p: "(0x80 :: byte) = 2 ^ 7"
    by (simp_all add: mask_eq_exp_minus_1)
  have "a AND 2 ^ 7 = 0 \<longleftrightarrow> \<not> bit a 7"
    by (rule and_exp_eq_0_iff_not_bit)
  hence "a AND 0x80 = 0 \<longleftrightarrow> \<not> bit a 7"
    by (simp only: p)
  thus "a AND 0x80 = 0 \<longleftrightarrow> a < 0x80"
    by (simp only: byte_bit7 not_le)
  show "a < 0x80 \<Longrightarrow> a AND 0x7F = a"
    unfolding m p by (rule less_mask_eq)
qed

lemma shifted_bytes:
  fixes x :: "32 word"
  shows "ucast (drop_bit (8 * k) x AND 0xFF) = byte_at x k"
    and "ucast (drop_bit 8 (drop_bit (8 * k) x) AND 0xFF) = byte_at x (k + 1)"
    and "ucast (drop_bit 16 (drop_bit (8 * k) x) AND 0xFF) = byte_at x (k + 2)"
  by (simp_all add: byte_at_def algebra_simps)

lemma CompactToBig_bytes:
  "CompactToBig C =
     (let Z = replicate 32 (0 :: byte); size = unat (byte_at C 3); M = C AND 0x007FFFFF in
      if byte_at C 2 AND 0x80 \<noteq> 0 then Z
      else if size > 34 then Z
      else if size \<le> 3
        then Z[0 := byte_at M (3 - size), 1 := byte_at M (4 - size), 2 := byte_at M (5 - size)]
      else if size \<le> 32
        then Z[size - 3 := byte_at C 0, size - 2 := byte_at C 1, size - 1 := byte_at C 2 AND 0x7F]
      else Z)"
proof -
  let ?Z = "replicate 32 (0 :: byte)"
  let ?s = "unat (byte_at C 3)"
  let ?M = "C AND 0x007FFFFF"
  have A: "(C AND 0x00800000 \<noteq> 0) = (byte_at C 2 AND 0x80 \<noteq> 0)"
    by (simp only: sign_test)
  have B: "unat (drop_bit 24 C AND 0xFF) = ?s"
    by (rule unat_and_ff)
  have w0: "ucast (?M AND 0xFF) = byte_at C 0"
    by (simp only: ucast_and_ff(1) mantissa_bytes)
  have w1: "ucast (drop_bit 8 ?M AND 0xFF) = byte_at C 1"
    by (simp only: ucast_and_ff(2) mantissa_bytes)
  have w2: "ucast (drop_bit 16 ?M AND 0xFF) = byte_at C 2 AND 0x7F"
    by (simp only: ucast_and_ff(3) mantissa_bytes)
  have sm: "ucast (drop_bit (8 * (3 - ?s)) ?M AND 0xFF) = byte_at ?M (3 - ?s)"
              "ucast (drop_bit 8 (drop_bit (8 * (3 - ?s)) ?M) AND 0xFF) = byte_at ?M (4 - ?s)"
              "ucast (drop_bit 16 (drop_bit (8 * (3 - ?s)) ?M) AND 0xFF) = byte_at ?M (5 - ?s)"
    if "?s \<le> 3"
  proof -
    have "3 - ?s + 1 = 4 - ?s" "3 - ?s + 2 = 5 - ?s"
      using that by simp_all
    thus "ucast (drop_bit (8 * (3 - ?s)) ?M AND 0xFF) = byte_at ?M (3 - ?s)"
         "ucast (drop_bit 8 (drop_bit (8 * (3 - ?s)) ?M) AND 0xFF) = byte_at ?M (4 - ?s)"
         "ucast (drop_bit 16 (drop_bit (8 * (3 - ?s)) ?M) AND 0xFF) = byte_at ?M (5 - ?s)"
      using shifted_bytes [of "3 - ?s" ?M] by (simp_all only:)
  qed
  have step: "CompactToBig C =
     (if byte_at C 2 AND 0x80 \<noteq> 0 then ?Z
      else if ?s > 34 then ?Z
      else if ?s \<le> 3 then
          ?Z[0 := ucast (drop_bit (8 * (3 - ?s)) ?M AND 0xFF),
             1 := ucast (drop_bit 8 (drop_bit (8 * (3 - ?s)) ?M) AND 0xFF),
             2 := ucast (drop_bit 16 (drop_bit (8 * (3 - ?s)) ?M) AND 0xFF)]
      else if ?s - 3 \<le> 29 then
               (if ?s - 3 + 2 < 32
                then (if ?s - 3 + 1 < 32 then ?Z[?s - 3 := byte_at C 0, ?s - 3 + 1 := byte_at C 1]
                      else ?Z[?s - 3 := byte_at C 0])[?s - 3 + 2 := byte_at C 2 AND 0x7F]
                else (if ?s - 3 + 1 < 32 then ?Z[?s - 3 := byte_at C 0, ?s - 3 + 1 := byte_at C 1]
                      else ?Z[?s - 3 := byte_at C 0]))
             else ?Z)"
    by (simp only: CompactToBig_def Let_def A B w1 w2 w0)
  consider (neg) "byte_at C 2 AND 0x80 \<noteq> 0"
    | (huge) "byte_at C 2 AND 0x80 = 0" "?s > 34"
    | (small) "byte_at C 2 AND 0x80 = 0" "?s \<le> 3"
    | (mid) "byte_at C 2 AND 0x80 = 0" "3 < ?s" "?s \<le> 32"
    | (top) "byte_at C 2 AND 0x80 = 0" "32 < ?s" "?s \<le> 34"
    by linarith
  then show ?thesis
  proof cases
    case neg
    then show ?thesis by (simp add: step Let_def)
  next
    case huge
    then show ?thesis by (simp add: step Let_def)
  next
    case small
    hence i: "\<not> ?s > 34" "?s \<le> 3"
      by auto
    show ?thesis
      using small(1) by (simp only: step sm [OF small(2)] i Let_def if_True if_False simp_thms)
  next
    case mid
    hence i: "?s - 3 + 1 = ?s - 2" "?s - 3 + 2 = ?s - 1" "?s - 3 \<le> 29" "?s - 2 < 32" "?s - 1 < 32" "\<not> ?s \<le> 3" "\<not> ?s > 34"
      by auto
    show ?thesis
      using mid(1) mid(3) by (simp only: step i Let_def if_True if_False simp_thms)
  next
    case top
    hence i: "\<not> ?s - 3 \<le> 29" "\<not> ?s \<le> 3" "\<not> ?s > 34" "\<not> ?s \<le> 32"
      by auto
    show ?thesis
      using top(1) by (simp only: step i Let_def if_True if_False simp_thms)
  qed
qed

lemma find_msb_Some_iff:
  "find_msb n t = Some m \<longleftrightarrow> m < n \<and> t ! m \<noteq> 0 \<and> (\<forall>i. m < i \<and> i < n \<longrightarrow> t ! i = 0)"
proof (induction n)
  case 0
  show ?case by simp
next
  case (Suc n)
  show ?case
  proof (cases "t ! n = 0")
    case True
    have "(\<forall>i. m < i \<and> i < Suc n \<longrightarrow> t ! i = 0) \<longleftrightarrow> (\<forall>i. m < i \<and> i < n \<longrightarrow> t ! i = 0)"
      using True less_Suc_eq by auto
    moreover have "m < Suc n \<and> t ! m \<noteq> 0 \<longleftrightarrow> m < n \<and> t ! m \<noteq> 0"
      using True less_Suc_eq by auto
    ultimately show ?thesis
      using True Suc.IH by auto
  next
    case False
    have "m < Suc n \<and> t ! m \<noteq> 0 \<and> (\<forall>i. m < i \<and> i < Suc n \<longrightarrow> t ! i = 0) \<longleftrightarrow> m = n"
      using False by (metis less_Suc_eq lessI not_less_iff_gr_or_eq)
    thus ?thesis
      using False by auto
  qed
qed

lemma find_msb_None_iff:
  "find_msb n t = None \<longleftrightarrow> (\<forall>i < n. t ! i = 0)"
  by (induction n) (auto simp: less_Suc_eq)

lemma unat_of_nat_byte: "s < 256 \<Longrightarrow> unat (word_of_nat s :: byte) = s"
  by (simp add: unat_of_nat)

lemma BigToCompact_big:
  assumes msb: "find_msb 32 t = Some m" and big: "3 \<le> m"
  shows "byte_at (BigToCompact t) 0 = (if t ! m AND 0x80 \<noteq> 0 then t ! (m - 1) else t ! (m - 2))"
    and "byte_at (BigToCompact t) 1 = (if t ! m AND 0x80 \<noteq> 0 then t ! m else t ! (m - 1))"
    and "byte_at (BigToCompact t) 2 = (if t ! m AND 0x80 \<noteq> 0 then 0 else t ! m)"
    and "byte_at (BigToCompact t) 3 = (if t ! m AND 0x80 \<noteq> 0 then word_of_nat (m + 2) else word_of_nat (m + 1))"
proof -
  let ?W = "push_bit 16 (ucast (t ! m)) OR push_bit 8 (ucast (t ! (m - 1))) OR ucast (t ! (m - 2)) :: 32 word"
  have m32: "m < 32"
    using msb by (simp add: find_msb_Some_iff)
  have W: "byte_at ?W 0 = t ! (m - 2)" "byte_at ?W 1 = t ! (m - 1)" "byte_at ?W 2 = t ! m" "byte_at ?W 3 = 0"
    by (simp_all add: byte_at_or byte_at_ucast del: One_nat_def)
  have sgn: "(?W AND 0x00800000 \<noteq> 0) = (t ! m AND 0x80 \<noteq> 0)"
    by (simp only: sign_test W)
  have B: "BigToCompact t =
             (if t ! m AND 0x80 \<noteq> 0 then push_bit 24 (word_of_nat (m + 1 + 1)) OR drop_bit 8 ?W
              else push_bit 24 (word_of_nat (m + 1)) OR ?W)"
    using big by (simp only: BigToCompact_def msb option.case Let_def sgn) simp
  have "m + 1 < 256" "m + 2 < 256"
    using m32 by simp_all
  hence s1: "byte_at (word_of_nat (m + 1) :: 32 word) 0 = word_of_nat (m + 1)"
    and s2: "byte_at (word_of_nat (m + 2) :: 32 word) 0 = word_of_nat (m + 2)"
    by (simp_all only: byte_at_of_nat simp_thms if_True)
  show "byte_at (BigToCompact t) 0 = (if t ! m AND 0x80 \<noteq> 0 then t ! (m - 1) else t ! (m - 2))"
    by (simp add: B byte_at_or byte_at_ucast del: One_nat_def)
  show "byte_at (BigToCompact t) 1 = (if t ! m AND 0x80 \<noteq> 0 then t ! m else t ! (m - 1))"
    by (simp add: B byte_at_or byte_at_ucast del: One_nat_def)
  show "byte_at (BigToCompact t) 2 = (if t ! m AND 0x80 \<noteq> 0 then 0 else t ! m)"
    by (simp add: B byte_at_or byte_at_ucast del: One_nat_def)
  show "byte_at (BigToCompact t) 3 = (if t ! m AND 0x80 \<noteq> 0 then word_of_nat (m + 2) else word_of_nat (m + 1))"
    using s1 s2 by (simp add: B byte_at_or byte_at_ucast byte_at_beyond del: One_nat_def)
qed

lemma byte_at_small_numerals [simp]:
  "byte_at (1 :: 32 word) 0 = 1" "byte_at (2 :: 32 word) 0 = 2" "byte_at (3 :: 32 word) 0 = 3"
  by (simp_all add: byte_at_def)

lemma byte_at_size_numerals [simp]:
  "byte_at (0x01000000 :: 32 word) 0 = 0" "byte_at (0x01000000 :: 32 word) 1 = 0"
  "byte_at (0x01000000 :: 32 word) 2 = 0" "byte_at (0x01000000 :: 32 word) 3 = 1"
  "byte_at (0x02000000 :: 32 word) 0 = 0" "byte_at (0x02000000 :: 32 word) 1 = 0"
  "byte_at (0x02000000 :: 32 word) 2 = 0" "byte_at (0x02000000 :: 32 word) 3 = 2"
  "byte_at (0x03000000 :: 32 word) 0 = 0" "byte_at (0x03000000 :: 32 word) 1 = 0"
  "byte_at (0x03000000 :: 32 word) 2 = 0" "byte_at (0x03000000 :: 32 word) 3 = 3"
  by (simp_all add: byte_at_def)

lemma pack_low_3:
  "pack_low 3 t 0 = push_bit 8 (push_bit 8 (ucast (t ! 2)) OR ucast (t ! 1)) OR ucast (t ! 0)"
proof -
  have "pack_low (Suc (Suc (Suc 0))) t 0 =
          push_bit 8 (push_bit 8 (ucast (t ! Suc (Suc 0))) OR ucast (t ! Suc 0)) OR ucast (t ! 0)"
    by (simp del: push_bit_or)
  thus ?thesis
    by (simp only: numeral_3_eq_3 numeral_2_eq_2 One_nat_def)
qed

lemma BigToCompact_small0:
  assumes msb: "find_msb 32 t = Some 0"
  shows "byte_at (BigToCompact t) 0 = 0" "byte_at (BigToCompact t) 1 = 0"
        "byte_at (BigToCompact t) 2 = t ! 0" "byte_at (BigToCompact t) 3 = 1"
proof -
  have B: "BigToCompact t = 0x01000000 OR push_bit 16 (ucast (t ! 0))"
    by (simp add: BigToCompact_def msb)
  show "byte_at (BigToCompact t) 0 = 0" "byte_at (BigToCompact t) 1 = 0"
       "byte_at (BigToCompact t) 2 = t ! 0" "byte_at (BigToCompact t) 3 = 1"
    by (simp_all add: B byte_at_or byte_at_ucast del: One_nat_def)
qed

lemma BigToCompact_small1:
  assumes msb: "find_msb 32 t = Some 1"
  shows "byte_at (BigToCompact t) 0 = 0" "byte_at (BigToCompact t) 1 = t ! 0"
        "byte_at (BigToCompact t) 2 = t ! 1" "byte_at (BigToCompact t) 3 = 2"
proof -
  have B: "BigToCompact t = 0x02000000 OR push_bit 8 (push_bit 8 (ucast (t ! 1)) OR ucast (t ! 0))"
    by (simp add: BigToCompact_def msb numeral_2_eq_2 del: push_bit_or)
  show "byte_at (BigToCompact t) 0 = 0" "byte_at (BigToCompact t) 1 = t ! 0"
       "byte_at (BigToCompact t) 2 = t ! 1" "byte_at (BigToCompact t) 3 = 2"
    by (simp_all add: B byte_at_or byte_at_ucast del: One_nat_def push_bit_or)
qed

lemma BigToCompact_small2:
  assumes msb: "find_msb 32 t = Some 2"
  shows "byte_at (BigToCompact t) 0 = t ! 0" "byte_at (BigToCompact t) 1 = t ! 1"
        "byte_at (BigToCompact t) 2 = t ! 2" "byte_at (BigToCompact t) 3 = 3"
proof -
  have B: "BigToCompact t =
             0x03000000 OR (push_bit 8 (push_bit 8 (ucast (t ! 2)) OR ucast (t ! 1)) OR ucast (t ! 0))"
    by (simp add: BigToCompact_def msb pack_low_3 del: push_bit_or)
  show "byte_at (BigToCompact t) 0 = t ! 0" "byte_at (BigToCompact t) 1 = t ! 1"
       "byte_at (BigToCompact t) 2 = t ! 2" "byte_at (BigToCompact t) 3 = 3"
    by (simp_all add: B byte_at_or byte_at_ucast del: One_nat_def push_bit_or)
qed

lemma replicate_update_same [simp]: "(replicate n x)[i := x] = replicate n x"
  by (cases "i < n") (simp_all add: list_eq_iff_nth_eq nth_list_update)

lemma CompactToBig_zero: "CompactToBig 0 = replicate 32 0"
  by (simp add: CompactToBig_def)

lemma target_zero:
  assumes "length t = 32" "find_msb 32 t = None"
  shows "t = replicate 32 0"
  using assms by (intro nth_equalityI) (simp_all add: find_msb_None_iff)

lemma expand_mid:
  assumes sgn: "byte_at C 2 AND 0x80 = 0" and lo: "3 < unat (byte_at C 3)" and hi: "unat (byte_at C 3) \<le> 32"
  shows "CompactToBig C =
           (replicate 32 0)[unat (byte_at C 3) - 3 := byte_at C 0,
                            unat (byte_at C 3) - 2 := byte_at C 1,
                            unat (byte_at C 3) - 1 := byte_at C 2 AND 0x7F]"
proof -
  have "\<not> unat (byte_at C 3) > 34" "\<not> unat (byte_at C 3) \<le> 3"
    using lo hi by simp_all
  thus ?thesis
    using sgn hi by (simp only: CompactToBig_bytes Let_def if_True if_False simp_thms)
qed

lemma roundtrip_big_plain:
  assumes len: "length t = 32" and msb: "find_msb 32 t = Some m" and big: "3 \<le> m"
      and top: "t ! m < 0x80" and low: "\<forall>i < m - 2. t ! i = 0"
  shows "CompactToBig (BigToCompact t) = t"
proof -
  let ?R = "BigToCompact t"
  have m32: "m < 32" and above: "\<forall>i. m < i \<and> i < 32 \<longrightarrow> t ! i = 0"
    using msb by (simp_all add: find_msb_Some_iff)
  have a80: "t ! m AND 0x80 = 0" and a7f: "t ! m AND 0x7F = t ! m"
    using top by (simp_all add: byte_high_bit)
  have R: "byte_at ?R 0 = t ! (m - 2)" "byte_at ?R 1 = t ! (m - 1)" "byte_at ?R 2 = t ! m"
          "byte_at ?R 3 = word_of_nat (m + 1)"
    using BigToCompact_big [OF msb big] a80 by (simp_all only: simp_thms if_False)
  have sz: "unat (byte_at ?R 3) = m + 1"
    unfolding R by (rule unat_of_nat_byte) (use m32 in simp)
  have "CompactToBig ?R =
          (replicate 32 0)[m + 1 - 3 := t ! (m - 2), m + 1 - 2 := t ! (m - 1), m + 1 - 1 := t ! m]"
  proof -
    have s1: "byte_at ?R 2 AND 0x80 = 0"
      by (simp only: R a80)
    have s2: "3 < unat (byte_at ?R 3)" and s3: "unat (byte_at ?R 3) \<le> 32"
      using sz big m32 by linarith+
    show ?thesis
      using expand_mid [OF s1 s2 s3] by (simp only: sz R(1-3) a7f)
  qed
  also have "\<dots> = t"
  proof (rule nth_equalityI)
    show "length ((replicate 32 0)[m + 1 - 3 := t ! (m - 2), m + 1 - 2 := t ! (m - 1), m + 1 - 1 := t ! m]) = length t"
      using len by simp
  next
    fix i
    assume "i < length ((replicate 32 0)[m + 1 - 3 := t ! (m - 2), m + 1 - 2 := t ! (m - 1), m + 1 - 1 := t ! m])"
    hence i: "i < 32"
      by simp
    consider "i = m" | "i = m - 1" | "i = m - 2" | "i < m - 2" | "m < i"
      by linarith
    then show "(replicate 32 0)[m + 1 - 3 := t ! (m - 2), m + 1 - 2 := t ! (m - 1), m + 1 - 1 := t ! m] ! i = t ! i"
    proof cases
      case 1
      then show ?thesis using m32 by simp
    next
      case 2
      then show ?thesis using m32 big by (simp add: nth_list_update)
    next
      case 3
      then show ?thesis using m32 big by (simp add: nth_list_update)
    next
      case 4
      then show ?thesis using m32 big low i by (simp add: nth_list_update)
    next
      case 5
      then show ?thesis using m32 big above i by (simp add: nth_list_update)
    qed
  qed
  finally show ?thesis .
qed


lemma nth_three:
  assumes "i < 32"
  shows "(replicate 32 (0 :: byte))[p := a, q := b, r := c] ! i =
           (if i = r then c else if i = q then b else if i = p then a else 0)"
  using assms by (simp add: nth_list_update)

lemma roundtrip_big_high:
  assumes len: "length t = 32" and msb: "find_msb 32 t = Some m" and big: "3 \<le> m" and m30: "m \<le> 30"
      and top: "0x80 \<le> t ! m" and low: "\<forall>i < m - 1. t ! i = 0"
  shows "CompactToBig (BigToCompact t) = t"
proof -
  let ?R = "BigToCompact t"
  have above: "\<forall>i. m < i \<and> i < 32 \<longrightarrow> t ! i = 0"
    using msb by (simp add: find_msb_Some_iff)
  have a80: "t ! m AND 0x80 \<noteq> 0"
    using top by (simp add: byte_high_bit(1) not_less)
  have R: "byte_at ?R 0 = t ! (m - 1)" "byte_at ?R 1 = t ! m" "byte_at ?R 2 = 0"
          "byte_at ?R 3 = word_of_nat (m + 2)"
    using BigToCompact_big [OF msb big] a80 by (simp_all only: simp_thms if_True)
  have sz: "unat (byte_at ?R 3) = m + 2"
    unfolding R by (rule unat_of_nat_byte) (use m30 in simp)
  have E: "CompactToBig ?R = (replicate 32 0)[m + 2 - 3 := t ! (m - 1), m + 2 - 2 := t ! m, m + 2 - 1 := 0 AND 0x7F]"
  proof -
    have s1: "byte_at ?R 2 AND 0x80 = 0"
      by (simp only: R) simp
    have s2: "3 < unat (byte_at ?R 3)" and s3: "unat (byte_at ?R 3) \<le> 32"
      using sz big m30 by linarith+
    show ?thesis
      using expand_mid [OF s1 s2 s3] by (simp only: sz R(1-3))
  qed
  show ?thesis
  proof (rule nth_equalityI)
    show "length (CompactToBig ?R) = length t"
      using len by (simp add: E)
  next
    fix i
    assume "i < length (CompactToBig ?R)"
    hence i: "i < 32"
      by (simp add: E)
    consider "i = m + 1" | "i = m" | "i = m - 1" | "i < m - 1" | "m + 1 < i"
      by linarith
    then show "CompactToBig ?R ! i = t ! i"
    proof cases
      case 1
      then show ?thesis using i above by (simp add: E nth_three)
    next
      case 2
      then show ?thesis using i by (simp add: E nth_three)
    next
      case 3
      then show ?thesis using i big by (simp add: E nth_three)
    next
      case 4
      then show ?thesis using i big low by (simp add: E nth_three)
    next
      case 5
      then show ?thesis using i big above by (simp add: E nth_three)
    qed
  qed
qed

lemma expand_small:
  assumes sgn: "byte_at C 2 AND 0x80 = 0" and sz: "unat (byte_at C 3) = k" and k: "k \<le> 3"
  shows "CompactToBig C =
           (replicate 32 0)[0 := byte_at (C AND 0x007FFFFF) (3 - k),
                            1 := byte_at (C AND 0x007FFFFF) (4 - k),
                            2 := byte_at (C AND 0x007FFFFF) (5 - k)]"
proof -
  have "\<not> k > 34"
    using k by simp
  thus ?thesis
    using sgn k by (simp only: CompactToBig_bytes Let_def sz if_True if_False simp_thms)
qed

lemma expand_small_cases:
  assumes sgn: "byte_at C 2 AND 0x80 = 0"
  shows "unat (byte_at C 3) = 1 \<Longrightarrow> CompactToBig C = (replicate 32 0)[0 := byte_at C 2 AND 0x7F, 1 := 0, 2 := 0]"
    and "unat (byte_at C 3) = 2 \<Longrightarrow> CompactToBig C = (replicate 32 0)[0 := byte_at C 1, 1 := byte_at C 2 AND 0x7F, 2 := 0]"
    and "unat (byte_at C 3) = 3 \<Longrightarrow> CompactToBig C = (replicate 32 0)[0 := byte_at C 0, 1 := byte_at C 1, 2 := byte_at C 2 AND 0x7F]"
proof -
  have idx: "3 - 1 = (2 :: nat)" "4 - 1 = (3 :: nat)" "5 - 1 = (4 :: nat)"
            "3 - 2 = (1 :: nat)" "4 - 2 = (2 :: nat)" "5 - 2 = (3 :: nat)"
            "3 - 3 = (0 :: nat)" "4 - 3 = (1 :: nat)" "5 - 3 = (2 :: nat)"
    by simp_all
  have b4: "byte_at (C AND 0x007FFFFF) 4 = 0"
    by (rule byte_at_beyond) simp
  show "unat (byte_at C 3) = 1 \<Longrightarrow> CompactToBig C = (replicate 32 0)[0 := byte_at C 2 AND 0x7F, 1 := 0, 2 := 0]"
    using expand_small [OF sgn, of 1] by (simp only: idx mantissa_bytes b4)
  show "unat (byte_at C 3) = 2 \<Longrightarrow> CompactToBig C = (replicate 32 0)[0 := byte_at C 1, 1 := byte_at C 2 AND 0x7F, 2 := 0]"
    using expand_small [OF sgn, of 2] by (simp only: idx mantissa_bytes b4)
  show "unat (byte_at C 3) = 3 \<Longrightarrow> CompactToBig C = (replicate 32 0)[0 := byte_at C 0, 1 := byte_at C 1, 2 := byte_at C 2 AND 0x7F]"
    using expand_small [OF sgn, of 3] by (simp only: idx mantissa_bytes b4)
qed


lemma roundtrip_small:
  assumes len: "length t = 32" and msb: "find_msb 32 t = Some m" and small: "m < 3"
      and top: "t ! m < 0x80"
  shows "CompactToBig (BigToCompact t) = t"
proof -
  let ?R = "BigToCompact t"
  have above: "\<forall>i. m < i \<and> i < 32 \<longrightarrow> t ! i = 0"
    using msb by (simp add: find_msb_Some_iff)
  have a80: "t ! m AND 0x80 = 0" and a7f: "t ! m AND 0x7F = t ! m"
    using top by (simp_all add: byte_high_bit)
  consider "m = 0" | "m = 1" | "m = 2"
    using small by linarith
  then have E: "CompactToBig ?R = (replicate 32 0)[0 := t ! 0, 1 := t ! 1, 2 := t ! 2]"
  proof cases
    case 1
    note R = BigToCompact_small0 [OF msb [unfolded 1]]
    have s1: "byte_at ?R 2 AND 0x80 = 0"
      using a80 by (simp only: R 1)
    have s2: "unat (byte_at ?R 3) = 1"
      by (simp only: R) simp
    have z: "t ! 1 = 0" "t ! 2 = 0"
      using above 1 by simp_all
    show ?thesis
      using expand_small_cases(1) [OF s1 s2] a7f by (simp only: R 1 z)
  next
    case 2
    note R = BigToCompact_small1 [OF msb [unfolded 2]]
    have s1: "byte_at ?R 2 AND 0x80 = 0"
      using a80 by (simp only: R 2)
    have s2: "unat (byte_at ?R 3) = 2"
      by (simp only: R) simp
    have z: "t ! 2 = 0"
      using above 2 by simp
    show ?thesis
      using expand_small_cases(2) [OF s1 s2] a7f by (simp only: R 2 z)
  next
    case 3
    note R = BigToCompact_small2 [OF msb [unfolded 3]]
    have s1: "byte_at ?R 2 AND 0x80 = 0"
      using a80 by (simp only: R 3)
    have s2: "unat (byte_at ?R 3) = 3"
      by (simp only: R) simp
    show ?thesis
      using expand_small_cases(3) [OF s1 s2] a7f by (simp only: R 3)
  qed
  show ?thesis
  proof (rule nth_equalityI)
    show "length (CompactToBig ?R) = length t"
      using len by (simp add: E)
  next
    fix i
    assume "i < length (CompactToBig ?R)"
    hence i: "i < 32"
      by (simp add: E)
    have "2 < i \<Longrightarrow> t ! i = 0"
      using above small i by simp
    thus "CompactToBig ?R ! i = t ! i"
      using i by (auto simp add: E nth_three)
  qed
qed

lemma fits_compact_roundtrip:
  assumes len: "length t = 32" and fits: "fits_compact t"
  shows "CompactToBig (BigToCompact t) = t"
proof (cases "find_msb 32 t")
  case None
  have "BigToCompact t = 0"
    by (simp add: BigToCompact_def None)
  thus ?thesis
    using target_zero [OF len None] by (simp add: CompactToBig_zero)
next
  case (Some m)
  have m32: "m < 32"
    using Some by (simp add: find_msb_Some_iff)
  show ?thesis
  proof (cases "t ! m < 0x80")
    case True
    hence low: "\<forall>i < m - 2. t ! i = 0"
      using fits len m32 by (simp add: fits_compact_def Some list_all_length)
    show ?thesis
    proof (cases "m < 3")
      case True
      show ?thesis
        by (rule roundtrip_small [OF len Some True \<open>t ! m < 0x80\<close>])
    next
      case False
      hence "3 \<le> m"
        by simp
      thus ?thesis
        by (rule roundtrip_big_plain [OF len Some _ True low])
    qed
  next
    case False
    hence f: "3 \<le> m" "m \<le> 30" "\<forall>i < m - 1. t ! i = 0"
      using fits len m32 by (simp_all add: fits_compact_def Some list_all_length)
    show ?thesis
      using False by (intro roundtrip_big_high [OF len Some f(1,2) _ f(3)]) (simp add: not_less)
  qed
qed

lemma sign_clear_top:
  assumes "(c :: 32 word) AND 0x00800000 = 0"
  shows "byte_at c 2 AND 0x80 = 0" "byte_at c 2 AND 0x7F = byte_at c 2" "byte_at c 2 < 0x80"
  using assms by (simp_all add: sign_test byte_high_bit)

lemma BigToCompact_sign_clear:
  assumes "\<not> short_high_bit t"
  shows "BigToCompact t AND 0x00800000 = 0"
proof (cases "find_msb 32 t")
  case None
  thus ?thesis
    by (simp add: BigToCompact_def)
next
  case (Some m)
  show ?thesis
  proof (cases "m < 3")
    case True
    hence top: "t ! m AND 0x80 = 0"
      using assms by (simp add: short_high_bit_def Some byte_high_bit(1) not_le)
    consider "m = 0" | "m = 1" | "m = 2"
      using True by linarith
    then have "byte_at (BigToCompact t) 2 = t ! m"
    proof cases
      case 1
      show ?thesis
        using BigToCompact_small0(3) [OF Some [unfolded 1]] by (simp only: 1)
    next
      case 2
      show ?thesis
        using BigToCompact_small1(3) [OF Some [unfolded 2]] by (simp only: 2)
    next
      case 3
      show ?thesis
        using BigToCompact_small2(3) [OF Some [unfolded 3]] by (simp only: 3)
    qed
    thus ?thesis
      using top by (simp only: sign_test)
  next
    case False
    hence big: "3 \<le> m"
      by simp
    have "byte_at (BigToCompact t) 2 AND 0x80 = 0"
      by (cases "t ! m AND 0x80 = 0") (simp_all add: BigToCompact_big(3) [OF Some big])
    thus ?thesis
      by (simp only: sign_test)
  qed
qed

lemma BigToCompact_zero: "BigToCompact (replicate 32 0) = 0"
proof -
  have "find_msb 32 (replicate 32 (0 :: byte)) = None"
    by (simp add: find_msb_None_iff)
  thus ?thesis
    by (simp add: BigToCompact_def)
qed

lemma find_msb_three:
  assumes "m < 32" "(replicate 32 (0 :: byte))[p := a, q := b, r := c] ! m \<noteq> 0"
      and "p \<le> m" "q \<le> m" "r \<le> m"
  shows "find_msb 32 ((replicate 32 0)[p := a, q := b, r := c]) = Some m"
  unfolding find_msb_Some_iff using assms by (auto simp add: nth_three)

lemma size_byte:
  assumes "unat (x :: byte) = k"
  shows "x = word_of_nat k"
  using assms by auto

lemma canonical_short:
  assumes sgn: "(c :: 32 word) AND 0x00800000 = 0" and top: "byte_at c 2 \<noteq> 0"
  shows "unat (byte_at c 3) = 1 \<Longrightarrow> byte_at c 0 = 0 \<Longrightarrow> byte_at c 1 = 0 \<Longrightarrow> BigToCompact (CompactToBig c) = c"
    and "unat (byte_at c 3) = 2 \<Longrightarrow> byte_at c 0 = 0 \<Longrightarrow> BigToCompact (CompactToBig c) = c"
    and "unat (byte_at c 3) = 3 \<Longrightarrow> BigToCompact (CompactToBig c) = c"
proof -
  note s = sign_clear_top [OF sgn]
  {
    assume sz: "unat (byte_at c 3) = 1" and low: "byte_at c 0 = 0" and mid: "byte_at c 1 = 0"
    let ?T = "(replicate 32 0)[0 := byte_at c 2, 1 := 0, 2 := 0]"
    have E: "CompactToBig c = ?T"
      using expand_small_cases(1) [OF s(1) sz] by (simp only: s(2))
    have "?T = (replicate 32 0)[0 := 0, 0 := 0, 0 := byte_at c 2]"
      by (rule nth_equalityI) (simp_all add: nth_three)
    moreover have "find_msb 32 ((replicate 32 0)[0 := 0, 0 := 0, 0 := byte_at c 2]) = Some 0"
      by (rule find_msb_three) (simp_all add: top)
    ultimately have msb: "find_msb 32 ?T = Some 0"
      by (simp only:)
    have b3: "byte_at c 3 = 1"
      using size_byte [OF sz] by simp
    have "BigToCompact ?T = c"
      by (rule word32_eqI) (simp_all add: BigToCompact_small0 [OF msb] low mid b3 del: One_nat_def)
    thus "BigToCompact (CompactToBig c) = c"
      by (simp only: E)
  }
  {
    assume sz: "unat (byte_at c 3) = 2" and low: "byte_at c 0 = 0"
    let ?T = "(replicate 32 0)[0 := byte_at c 1, 1 := byte_at c 2, 2 := 0]"
    have E: "CompactToBig c = ?T"
      using expand_small_cases(2) [OF s(1) sz] by (simp only: s(2))
    have "?T = (replicate 32 0)[1 := 0, 0 := byte_at c 1, 1 := byte_at c 2]"
      by (rule nth_equalityI) (simp_all add: nth_three)
    moreover have "find_msb 32 ((replicate 32 0)[1 := 0, 0 := byte_at c 1, 1 := byte_at c 2]) = Some 1"
      by (rule find_msb_three) (simp_all add: top)
    ultimately have msb: "find_msb 32 ?T = Some 1"
      by (simp only:)
    have b3: "byte_at c 3 = 2"
      using size_byte [OF sz] by simp
    have "BigToCompact ?T = c"
      by (rule word32_eqI) (simp_all add: BigToCompact_small1 [OF msb] low b3 del: One_nat_def)
    thus "BigToCompact (CompactToBig c) = c"
      by (simp only: E)
  }
  {
    assume sz: "unat (byte_at c 3) = 3"
    let ?T = "(replicate 32 0)[0 := byte_at c 0, 1 := byte_at c 1, 2 := byte_at c 2]"
    have E: "CompactToBig c = ?T"
      using expand_small_cases(3) [OF s(1) sz] by (simp only: s(2))
    have msb: "find_msb 32 ?T = Some 2"
      by (rule find_msb_three) (simp_all add: top)
    have b3: "byte_at c 3 = 3"
      using size_byte [OF sz] by simp
    have "BigToCompact ?T = c"
      by (rule word32_eqI) (simp_all add: BigToCompact_small2 [OF msb] b3 del: One_nat_def)
    thus "BigToCompact (CompactToBig c) = c"
      by (simp only: E)
  }
qed

lemma canonical_long_plain:
  assumes sgn: "(c :: 32 word) AND 0x00800000 = 0" and top: "byte_at c 2 \<noteq> 0"
      and lo: "3 < unat (byte_at c 3)" and hi: "unat (byte_at c 3) \<le> 32"
  shows "BigToCompact (CompactToBig c) = c"
proof -
  note s = sign_clear_top [OF sgn]
  define k where "k = unat (byte_at c 3)"
  define m where "m = k - 1"
  let ?T = "(replicate 32 0)[m - 2 := byte_at c 0, m - 1 := byte_at c 1, m := byte_at c 2]"
  have k: "3 < k" "k \<le> 32" "k - 3 = m - 2" "k - 2 = m - 1" "k - 1 = m" "m + 1 = k" "3 \<le> m" "m < 32"
    using lo hi by (simp_all add: k_def m_def)
  have "CompactToBig c = (replicate 32 0)[k - 3 := byte_at c 0, k - 2 := byte_at c 1, k - 1 := byte_at c 2]"
    using expand_mid [OF s(1) lo hi] by (simp only: s(2) k_def)
  hence E: "CompactToBig c = ?T"
    by (simp only: k)
  have T: "?T ! m = byte_at c 2" "?T ! (m - 1) = byte_at c 1" "?T ! (m - 2) = byte_at c 0"
    using k(7,8) by (simp_all add: nth_three)
  have msb: "find_msb 32 ?T = Some m"
    by (rule find_msb_three) (simp_all add: k top T)
  have b3: "byte_at c 3 = word_of_nat (m + 1)"
    by (simp only: k(6)) (rule size_byte, simp only: k_def)
  have "BigToCompact ?T = c"
    using BigToCompact_big [OF msb k(7)] by (intro word32_eqI) (simp_all only: T s(1) b3 simp_thms if_False)
  thus ?thesis
    by (simp only: E)
qed

lemma canonical_long_high:
  assumes sgn: "(c :: 32 word) AND 0x00800000 = 0" and top: "byte_at c 2 = 0" and mid: "0x80 \<le> byte_at c 1"
      and lo: "5 \<le> unat (byte_at c 3)" and hi: "unat (byte_at c 3) \<le> 32"
  shows "BigToCompact (CompactToBig c) = c"
proof -
  note s = sign_clear_top [OF sgn]
  define k where "k = unat (byte_at c 3)"
  define m where "m = k - 2"
  let ?T = "(replicate 32 0)[m - 1 := byte_at c 0, m := byte_at c 1, m + 1 := 0]"
  have k: "5 \<le> k" "k \<le> 32" "k - 3 = m - 1" "k - 2 = m" "k - 1 = m + 1" "m + 2 = k" "3 \<le> m" "m < 32"
    using lo hi by (simp_all add: k_def m_def)
  have m80: "byte_at c 1 AND 0x80 \<noteq> 0" and mid0: "byte_at c 1 \<noteq> 0"
    using mid by (auto simp add: byte_high_bit(1) not_less)
  have "3 < unat (byte_at c 3)"
    using lo by simp
  hence "CompactToBig c = (replicate 32 0)[k - 3 := byte_at c 0, k - 2 := byte_at c 1, k - 1 := byte_at c 2]"
    using expand_mid [OF s(1) _ hi] by (simp only: s(2) k_def)
  hence E: "CompactToBig c = ?T"
    by (simp only: k top)
  have "?T = (replicate 32 0)[m + 1 := 0, m - 1 := byte_at c 0, m := byte_at c 1]"
    using k(7) by (intro nth_equalityI) (auto simp add: nth_three)
  hence E': "CompactToBig c = (replicate 32 0)[m + 1 := 0, m - 1 := byte_at c 0, m := byte_at c 1]"
    by (simp only: E)
  let ?U = "(replicate 32 0)[m + 1 := 0, m - 1 := byte_at c 0, m := byte_at c 1]"
  have U: "?U ! m = byte_at c 1" "?U ! (m - 1) = byte_at c 0"
    using k(7,8) by (simp_all add: nth_three)
  have "find_msb 32 ?U = Some m"
    unfolding find_msb_Some_iff using k(7,8) mid0 by (auto simp add: nth_three)
  hence msb: "find_msb 32 (CompactToBig c) = Some m"
    by (simp only: E')
  have b3: "byte_at c 3 = word_of_nat (m + 2)"
    by (simp only: k(6)) (rule size_byte, simp only: k_def)
  show ?thesis
    using BigToCompact_big [OF msb k(7)]
    by (intro word32_eqI) (simp_all only: E' U m80 b3 top simp_thms if_True)
qed

lemma canonical_roundtrip:
  assumes "canonical_compact c"
  shows "BigToCompact (CompactToBig c) = c"
proof (cases "c = 0")
  case True
  thus ?thesis
    by (simp add: CompactToBig_zero BigToCompact_zero)
next
  case False
  hence sgn: "c AND 0x00800000 = 0"
    using assms by (simp add: canonical_compact_def)
  define k where "k = unat (byte_at c 3)"
  have can: "if k \<le> 3 then 1 \<le> k \<and> byte_at c 2 \<noteq> 0 \<and> (k = 3 \<or> byte_at c 0 = 0) \<and> (2 \<le> k \<or> byte_at c 1 = 0)
             else k \<le> 32 \<and> (byte_at c 2 \<noteq> 0 \<or> (5 \<le> k \<and> 0x80 \<le> byte_at c 1))"
    using assms False by (auto simp add: canonical_compact_def Let_def k_def simp del: One_nat_def split: if_splits)
  have "1 \<le> k"
    using can by (cases "k \<le> 3") simp_all
  hence "k = 1 \<or> k = 2 \<or> k = 3 \<or> 3 < k"
    by arith
  then consider "k = 1" | "k = 2" | "k = 3" | "3 < k" "byte_at c 2 \<noteq> 0" | "3 < k" "byte_at c 2 = 0"
    by blast
  then show ?thesis
  proof cases
    case 1
    thus ?thesis
      using can canonical_short(1) [OF sgn, of] by (simp add: k_def del: One_nat_def)
  next
    case 2
    thus ?thesis
      using can canonical_short(2) [OF sgn] by (simp add: k_def del: One_nat_def)
  next
    case 3
    thus ?thesis
      using can canonical_short(3) [OF sgn] by (simp add: k_def del: One_nat_def)
  next
    case 4
    thus ?thesis
      using can canonical_long_plain [OF sgn] by (simp add: k_def del: One_nat_def)
  next
    case 5
    thus ?thesis
      using can canonical_long_high [OF sgn] by (simp add: k_def del: One_nat_def)
  qed
qed


text \<open>
  Claim C1, as stated, at a target below the proof-of-work limit: the target
  \<open>0x01000001\<close> has four significant bytes, its compact form \<open>0x04010000\<close> keeps the top
  three, and the expansion gives \<open>0x01000000\<close>. The round trip of a target does not hold
  for every target below the limit.
\<close>

theorem compact_roundtrip_counterexample:
  "length lossy_target = 32 \<and>
   \<not> exceeds_limit 32 lossy_target (powLimit s1_params) \<and>
   BigToCompact lossy_target = 0x04010000 \<and>
   CompactToBig (BigToCompact lossy_target) \<noteq> lossy_target"
  by code_simp

text \<open>
  Claim C1, amended: for every 32-byte target \<open>t\<close> that the compact form holds without loss
  (\<open>fits_compact\<close>: all bytes below the two or three bytes kept by the mantissa are zero),
  \<open>CompactToBig (BigToCompact t) = t\<close>; for every canonical compact value \<open>c\<close>
  (\<open>canonical_compact\<close>), \<open>BigToCompact (CompactToBig c) = c\<close>; and the mantissa sign bit
  \<open>0x00800000\<close> is clear in \<open>BigToCompact u\<close> for every target \<open>u\<close> other than those of at
  most three significant bytes whose top byte has its high bit set.
\<close>

theorem compact_roundtrip:
  "(length t = 32 \<and> fits_compact t \<longrightarrow> CompactToBig (BigToCompact t) = t) \<and>
   (canonical_compact c \<longrightarrow> BigToCompact (CompactToBig c) = c) \<and>
   (\<not> short_high_bit u \<longrightarrow> BigToCompact u AND 0x00800000 = 0)"
  using fits_compact_roundtrip [of t] canonical_roundtrip [of c] BigToCompact_sign_clear [of u]
  by blast

text \<open>
  The amended claim at the proof-of-work limit of the S1 network and its compact form
  \<open>0x1d00ffff\<close>.
\<close>

theorem compact_roundtrip_witness:
  "length (powLimit s1_params) = 32 \<and> fits_compact (powLimit s1_params) \<and>
   CompactToBig (BigToCompact (powLimit s1_params)) = powLimit s1_params \<and>
   canonical_compact 0x1d00ffff \<and>
   BigToCompact (CompactToBig 0x1d00ffff) = 0x1d00ffff \<and>
   \<not> short_high_bit (powLimit s1_params) \<and>
   BigToCompact (powLimit s1_params) AND 0x00800000 = 0"
proof -
  have h1: "length (powLimit s1_params) = 32 \<and> fits_compact (powLimit s1_params)"
    by code_simp
  have h2: "canonical_compact 0x1d00ffff"
    by code_simp
  have h3: "\<not> short_high_bit (powLimit s1_params)"
    by code_simp
  show ?thesis
    using compact_roundtrip [of "powLimit s1_params" "0x1d00ffff" "powLimit s1_params"] h1 h2 h3
    by blast
qed


end
